theory Spec2Isabelle
  imports Complex_Main "HOL-Library.Log_Nat"
begin

section \<open>Chunked transfer engine (useBLE.ts)\<close>

subsection \<open>Partitioning the payload\<close>

text \<open>\<^verbatim>\<open>Array.prototype.slice(begin, end)\<close> for non-negative indices: the elements at
  positions \<open>begin \<le> p < min end length\<close>; empty when \<open>end \<le> begin\<close>.\<close>

definition slice :: "'a list \<Rightarrow> nat \<Rightarrow> nat \<Rightarrow> 'a list" where
  "slice xs b e = take (e - b) (drop b xs)"

definition limitBytes :: nat where
  "limitBytes = 300"

text \<open>The loop \<^verbatim>\<open>for (let i = 0; i < byteData.length; i += limitBytes)
  chunks.push(byteData.slice(i, i + limitBytes))\<close> with the array \<open>chunks\<close> as accumulator.\<close>

function chunk_loop :: "nat \<Rightarrow> 'a list \<Rightarrow> 'a list list \<Rightarrow> 'a list list" where
  "chunk_loop i byteData chunks =
     (if i < length byteData
      then chunk_loop (i + limitBytes) byteData (chunks @ [slice byteData i (i + limitBytes)])
      else chunks)"
  by pat_completeness auto
termination
  by (relation "measure (\<lambda>(i, byteData, chunks). length byteData - i)") (auto simp: limitBytes_def)

definition make_chunks :: "'a list \<Rightarrow> 'a list list" where
  "make_chunks byteData = chunk_loop 0 byteData []"


subsection \<open>Transport encoding of a chunk\<close>

text \<open>Modelled from the spec: \<^verbatim>\<open>base64.encode\<close> and \<^verbatim>\<open>base64.decode\<close> come from the package
  \<^verbatim>\<open>react-native-base64\<close>, which \<^verbatim>\<open>useBLE.ts\<close> imports and whose code is not part of the
  sources. The spec calls it a binary-to-text transport encoding, base64-equivalent; it is
  modelled as standard base64 with padding over a string of code units below 256: three
  characters become four letters of the alphabet \<open>keyStr\<close>, whose position 64 is the
  padding letter.\<close>

definition keyStr :: string where
  "keyStr = ''ABCDEFGHIJKLMNOPQRSTUVWXYZabcdefghijklmnopqrstuvwxyz0123456789+/=''"

fun indexOf :: "'a list \<Rightarrow> 'a \<Rightarrow> nat" where
  "indexOf [] c = 0"
| "indexOf (k # ks) c = (if k = c then 0 else Suc (indexOf ks c))"

fun base64_encode :: "string \<Rightarrow> string" where
  "base64_encode [] = []"
| "base64_encode [c1] =
     (let chr1 = (of_char c1 :: nat)
      in [keyStr ! (chr1 div 4), keyStr ! ((chr1 mod 4) * 16), keyStr ! 64, keyStr ! 64])"
| "base64_encode [c1, c2] =
     (let chr1 = (of_char c1 :: nat); chr2 = (of_char c2 :: nat)
      in [keyStr ! (chr1 div 4), keyStr ! ((chr1 mod 4) * 16 + chr2 div 16),
          keyStr ! ((chr2 mod 16) * 4), keyStr ! 64])"
| "base64_encode (c1 # c2 # c3 # rest) =
     (let chr1 = (of_char c1 :: nat); chr2 = (of_char c2 :: nat); chr3 = (of_char c3 :: nat)
      in [keyStr ! (chr1 div 4), keyStr ! ((chr1 mod 4) * 16 + chr2 div 16),
          keyStr ! ((chr2 mod 16) * 4 + chr3 div 64), keyStr ! (chr3 mod 64)]
         @ base64_encode rest)"

fun base64_decode :: "string \<Rightarrow> string" where
  "base64_decode (k1 # k2 # k3 # k4 # rest) =
     (let enc1 = indexOf keyStr k1; enc2 = indexOf keyStr k2;
          enc3 = indexOf keyStr k3; enc4 = indexOf keyStr k4;
          chr1 = enc1 * 4 + enc2 div 16;
          chr2 = (enc2 mod 16) * 16 + enc3 div 4;
          chr3 = (enc3 mod 4) * 64 + enc4
      in [char_of chr1]
         @ (if enc3 \<noteq> 64 then [char_of chr2] else [])
         @ (if enc4 \<noteq> 64 then [char_of chr3] else [])
         @ base64_decode rest)"
| "base64_decode _ = []"

text \<open>\<^verbatim>\<open>bytesToBase64\<close>: \<^verbatim>\<open>new Uint8Array(bytes)\<close> reduces every (integer) element modulo 256,
  \<^verbatim>\<open>String.fromCharCode\<close> turns each into one character of the binary string, which is then
  encoded.\<close>

definition bytesToBase64 :: "int list \<Rightarrow> string" where
  "bytesToBase64 bytes = base64_encode (map (\<lambda>byte. char_of (byte mod 256)) bytes)"

subsection \<open>JavaScript numbers in the progress computation\<close>

text \<open>A JavaScript number is an IEEE 754 double. The values that arise in
  \<^verbatim>\<open>Math.round((count / byteData.length) * 100)\<close> are non-negative: a finite double (a
  rational), \<^verbatim>\<open>Infinity\<close> or \<^verbatim>\<open>NaN\<close>.\<close>

datatype js_number = Num rat | PosInfinity | NaN

text \<open>Rounding a rational to the nearest integer, ties to the even one: the rounding of the
  53-bit significand.\<close>

definition round_half_even :: "rat \<Rightarrow> int" where
  "round_half_even x =
     (let f = \<lfloor>x\<rfloor>; r = x - of_int f
      in if r < 1 / 2 then f else if 1 / 2 < r then f + 1 else if even f then f else f + 1)"

text \<open>For \<open>x > 0\<close>, the exponent \<open>k\<close> of its binade: \<open>2\<^sup>k \<le> x < 2\<^sup>k\<^sup>+\<^sup>1\<close>.\<close>

definition floor_log2 :: "rat \<Rightarrow> int" where
  "floor_log2 x =
     (let (a, b) = quotient_of x; d = bitlen a - bitlen b
      in if 2 powi d \<le> x then d else d - 1)"

text \<open>The double nearest to a rational (round to nearest, ties to even, 53 significant
  bits). Exponent overflow and subnormal numbers are left out: the operands here are the
  quotient of two array lengths (below \<open>2\<^sup>3\<^sup>2\<close>) and its product with 100.\<close>

definition to_double_pos :: "rat \<Rightarrow> rat" where
  "to_double_pos x =
     (let e = floor_log2 x - 52
      in of_int (round_half_even (x / 2 powi e)) * 2 powi e)"

definition to_double :: "rat \<Rightarrow> rat" where
  "to_double x = (if x = 0 then 0 else if 0 < x then to_double_pos x else - to_double_pos (- x))"

text \<open>\<^verbatim>\<open>a / b\<close> for two array lengths (non-negative integers, exactly representable):
  \<^verbatim>\<open>0 / 0\<close> is \<^verbatim>\<open>NaN\<close>, a positive number over zero is \<^verbatim>\<open>Infinity\<close>.\<close>

definition js_divide :: "nat \<Rightarrow> nat \<Rightarrow> js_number" where
  "js_divide a b =
     (if b = 0 then (if a = 0 then NaN else PosInfinity)
      else Num (to_double (of_nat a / of_nat b)))"

text \<open>\<^verbatim>\<open>x * y\<close> for a non-negative \<open>x\<close> and a positive finite \<open>y\<close>.\<close>

fun js_multiply :: "js_number \<Rightarrow> rat \<Rightarrow> js_number" where
  "js_multiply (Num x) y = Num (to_double (x * y))"
| "js_multiply PosInfinity y = PosInfinity"
| "js_multiply NaN y = NaN"

text \<open>\<^verbatim>\<open>Math.round\<close>: the nearest integer, a tie going towards \<open>+\<infinity>\<close>; \<^verbatim>\<open>NaN\<close> and
  \<^verbatim>\<open>Infinity\<close> are returned unchanged.\<close>

fun Math_round :: "js_number \<Rightarrow> js_number" where
  "Math_round (Num x) = Num (of_int \<lfloor>x + 1 / 2\<rfloor>)"
| "Math_round PosInfinity = PosInfinity"
| "Math_round NaN = NaN"

text \<open>The comparison \<^verbatim>\<open>a <= b\<close> of two such numbers; any comparison with \<^verbatim>\<open>NaN\<close> is false.\<close>

fun js_le :: "js_number \<Rightarrow> js_number \<Rightarrow> bool" where
  "js_le (Num a) (Num b) = (a \<le> b)"
| "js_le (Num a) PosInfinity = True"
| "js_le PosInfinity PosInfinity = True"
| "js_le a b = False"

text \<open>Decimal digits of a natural number, and the text of a number in a template literal
  (integers only: every number printed here is an array length or a result of
  \<^verbatim>\<open>Math.round\<close>).\<close>

function show_nat :: "nat \<Rightarrow> string" where
  "show_nat n = (if n < 10 then [char_of (48 + n)] else show_nat (n div 10) @ [char_of (48 + n mod 10)])"
  by pat_completeness auto
termination
  by (relation "measure id") auto

declare show_nat.simps [simp del]

fun number_to_string :: "js_number \<Rightarrow> string" where
  "number_to_string (Num x) =
     (if x < 0 then CHR ''-'' # show_nat (nat \<lfloor>- x\<rfloor>) else show_nat (nat \<lfloor>x\<rfloor>))"
| "number_to_string PosInfinity = ''Infinity''"
| "number_to_string NaN = ''NaN''"

text \<open>\<^verbatim>\<open>const progress = Math.round((count / byteData.length) * 100)\<close>\<close>

definition progress_of :: "nat \<Rightarrow> nat \<Rightarrow> js_number" where
  "progress_of count len = Math_round (js_multiply (js_divide count len) 100)"

subsection \<open>The transfer routine \<^verbatim>\<open>startStreamingData\<close>\<close>

definition DATA_SERVICE_UUID :: string where
  "DATA_SERVICE_UUID = ''000000ff-0000-1000-8000-00805f9b34fb''"

definition COLOR_CHARACTERISTIC_UUID :: string where
  "COLOR_CHARACTERISTIC_UUID = ''0000ff01-0000-1000-8000-00805f9b34fb''"

text \<open>What the routine does to the outside, in program order: the three state setters of
  the hook, the two calls on the device, the pacing delay between writes and the timer that
  later clears status and progress. Console output is left out.\<close>

datatype effect =
    SetIsStreaming bool
  | SetStreamingProgress js_number
  | SetStreamingStatus string
  | RequestMTU nat
  | WriteCharacteristic string string string
  | Sleep nat
  | ScheduleReset nat

text \<open>The connected peripheral, as far as the routine can observe it: whether the promise
  of \<^verbatim>\<open>requestMTU\<close> resolves, and whether the \<open>n\<close>-th write of the call (counted from 0)
  with a given value is acknowledged; otherwise the call throws.\<close>

record device =
  device_name :: string
  requestMTU_ok :: bool
  write_ok :: "nat \<Rightarrow> string \<Rightarrow> bool"

text \<open>The state of the hook (\<^verbatim>\<open>useState\<close>), the trace of effects, and the local variable
  \<^verbatim>\<open>count\<close> of the routine (the bytes sent; it is declared just before the streaming loop).\<close>

record session =
  isStreaming :: bool
  streamingProgress :: js_number
  streamingStatus :: string
  trace :: "effect list"
  count :: nat

definition initial_session :: session where
  "initial_session =
     \<lparr>isStreaming = False, streamingProgress = Num 0, streamingStatus = [], trace = [], count = 0\<rparr>"

definition setIsStreaming :: "bool \<Rightarrow> session \<Rightarrow> session" where
  "setIsStreaming b s = s\<lparr>isStreaming := b, trace := trace s @ [SetIsStreaming b]\<rparr>"

definition setStreamingProgress :: "js_number \<Rightarrow> session \<Rightarrow> session" where
  "setStreamingProgress p s = s\<lparr>streamingProgress := p, trace := trace s @ [SetStreamingProgress p]\<rparr>"

definition setStreamingStatus :: "string \<Rightarrow> session \<Rightarrow> session" where
  "setStreamingStatus m s = s\<lparr>streamingStatus := m, trace := trace s @ [SetStreamingStatus m]\<rparr>"

definition sleep :: "nat \<Rightarrow> session \<Rightarrow> session" where
  "sleep ms s = s\<lparr>trace := trace s @ [Sleep ms]\<rparr>"

definition scheduleReset :: "nat \<Rightarrow> session \<Rightarrow> session" where
  "scheduleReset ms s = s\<lparr>trace := trace s @ [ScheduleReset ms]\<rparr>"

text \<open>The callback of both timers: \<^verbatim>\<open>setStreamingStatus(""); setStreamingProgress(0)\<close>.\<close>

definition reset_callback :: "session \<Rightarrow> session" where
  "reset_callback s = setStreamingProgress (Num 0) (setStreamingStatus [] s)"

text \<open>The values written so far, and the progress values emitted so far.\<close>

fun writes_of :: "effect list \<Rightarrow> string list" where
  "writes_of [] = []"
| "writes_of (WriteCharacteristic service characteristic v # es) = v # writes_of es"
| "writes_of (e # es) = writes_of es"

fun emitted_progress :: "effect list \<Rightarrow> js_number list" where
  "emitted_progress [] = []"
| "emitted_progress (SetStreamingProgress p # es) = p # emitted_progress es"
| "emitted_progress (e # es) = emitted_progress es"

text \<open>The two awaited calls on the device. A call that throws is \<open>Inl\<close> of the state at the
  throw; the call itself has been issued and is in the trace.\<close>

definition requestMTU :: "device \<Rightarrow> nat \<Rightarrow> session \<Rightarrow> session + session" where
  "requestMTU dev mtu s =
     (let s' = s\<lparr>trace := trace s @ [RequestMTU mtu]\<rparr>
      in if requestMTU_ok dev then Inr s' else Inl s')"

definition writeCharacteristicWithResponseForService ::
    "device \<Rightarrow> string \<Rightarrow> string \<Rightarrow> string \<Rightarrow> session \<Rightarrow> session + session" where
  "writeCharacteristicWithResponseForService dev service characteristic v s =
     (let n = length (writes_of (trace s));
          s' = s\<lparr>trace := trace s @ [WriteCharacteristic service characteristic v]\<rparr>
      in if write_ok dev n v then Inr s' else Inl s')"

text \<open>The streaming loop \<^verbatim>\<open>for (let i = 0; i < chunks.length; i++)\<close> over the chunks that
  remain; \<open>len\<close> is \<^verbatim>\<open>byteData.length\<close>.\<close>

primrec stream_chunks :: "device \<Rightarrow> nat \<Rightarrow> int list list \<Rightarrow> session \<Rightarrow> session + session" where
  "stream_chunks dev len [] s = Inr s"
| "stream_chunks dev len (chunk # rest) s =
     (case writeCharacteristicWithResponseForService dev
             DATA_SERVICE_UUID COLOR_CHARACTERISTIC_UUID (bytesToBase64 chunk) s of
        Inl thrown \<Rightarrow> Inl thrown
      | Inr s1 \<Rightarrow>
          let s2 = s1\<lparr>count := count s1 + length chunk\<rparr>;
              progress = progress_of (count s2) len;
              s3 = setStreamingProgress progress s2;
              s4 = setStreamingStatus
                     (''Streaming... '' @ number_to_string progress @ ''% ('' @ show_nat (count s2)
                        @ ''/'' @ show_nat len @ '' bytes)'') s3;
              s5 = sleep 100 s4
          in stream_chunks dev len rest s5)"

text \<open>\<^verbatim>\<open>const endMarker = [0xFF, 0xFF, 0xFF, 0xFF]\<close>\<close>

definition endMarker :: "int list" where
  "endMarker = [0xFF, 0xFF, 0xFF, 0xFF]"

text \<open>The \<^verbatim>\<open>try\<close> block for a device that is present, in its three phases. First the
  statements before the streaming loop: the state is initialised, the transmission unit of
  303 bytes is requested, the status is updated and \<^verbatim>\<open>count\<close> is declared as 0.\<close>

definition begin_streaming :: "device \<Rightarrow> session \<Rightarrow> session + session" where
  "begin_streaming dev s0 =
     (let s1 = setStreamingStatus ''Requesting MTU...''
                 (setStreamingProgress (Num 0) (setIsStreaming True s0))
      in case requestMTU dev 303 s1 of
           Inl thrown \<Rightarrow> Inl thrown
         | Inr s2 \<Rightarrow>
             let s3 = setStreamingStatus ''Preparing data chunks...'' s2;
                 s4 = setStreamingStatus ''Streaming data...'' s3
             in Inr (s4\<lparr>count := 0\<rparr>))"

text \<open>The statements after the loop: the end marker is written, then progress 100 and the
  success message are set and the reset is scheduled after 2000 ms.\<close>

definition complete_streaming :: "device \<Rightarrow> session \<Rightarrow> session + session" where
  "complete_streaming dev s6 =
     (let s7 = setStreamingStatus ''Sending completion signal...'' s6
      in case writeCharacteristicWithResponseForService dev
                DATA_SERVICE_UUID COLOR_CHARACTERISTIC_UUID (bytesToBase64 endMarker) s7 of
           Inl thrown \<Rightarrow> Inl thrown
         | Inr s8 \<Rightarrow>
             Inr (scheduleReset 2000
                   (setIsStreaming False
                     (setStreamingStatus ''Streaming completed successfully!''
                       (setStreamingProgress (Num 100) s8)))))"

definition try_block :: "device \<Rightarrow> int list \<Rightarrow> session \<Rightarrow> session + session" where
  "try_block dev byteData s0 =
     (case begin_streaming dev s0 of
        Inl thrown \<Rightarrow> Inl thrown
      | Inr s5 \<Rightarrow>
          (case stream_chunks dev (length byteData) (make_chunks byteData) s5 of
             Inl thrown \<Rightarrow> Inl thrown
           | Inr s6 \<Rightarrow> complete_streaming dev s6))"

text \<open>The \<^verbatim>\<open>catch\<close> block: the failure message, and the reset scheduled after 3000 ms.\<close>

definition catch_block :: "session \<Rightarrow> session" where
  "catch_block s =
     scheduleReset 3000 (setIsStreaming False (setStreamingStatus ''Error: Streaming failed'' s))"

text \<open>\<^verbatim>\<open>startStreamingData(device, byteData)\<close>, called in the hook state \<open>s0\<close>; \<open>None\<close> is a
  device handle that is \<^verbatim>\<open>null\<close>. The trace of the call starts empty.\<close>

definition startStreamingData :: "device option \<Rightarrow> int list \<Rightarrow> session \<Rightarrow> session" where
  "startStreamingData device byteData s0 =
     (let s = s0\<lparr>trace := [], count := 0\<rparr>
      in case device of
           Some dev \<Rightarrow>
             (case try_block dev byteData s of
                Inr s' \<Rightarrow> s'
              | Inl thrown \<Rightarrow> catch_block thrown)
         | None \<Rightarrow> setIsStreaming False (setStreamingStatus ''Error: No device connected'' s))"

section \<open>Image storage (ImageStorageService.ts)\<close>

subsection \<open>Strings\<close>

text \<open>A JavaScript string is modelled as a \<open>string\<close> whose characters are the code units
  below 256 (Latin-1). Among them the white space of \<^verbatim>\<open>trim\<close> and of the regular expression
  class \<^verbatim>\<open>\s\<close> is: tab, line feed, vertical tab, form feed, carriage return, space and the
  no-break space.\<close>

definition is_space :: "char \<Rightarrow> bool" where
  "is_space c =
     (let n = (of_char c :: nat)
      in n = 9 \<or> n = 10 \<or> n = 11 \<or> n = 12 \<or> n = 13 \<or> n = 32 \<or> n = 160)"

definition trim :: "string \<Rightarrow> string" where
  "trim s = rev (dropWhile is_space (rev (dropWhile is_space s)))"

text \<open>\<^verbatim>\<open>toLowerCase\<close> on these code units: the letters \<open>A\<close> to \<open>Z\<close> and the accented capitals
  \<open>0xC0\<close> to \<open>0xDE\<close> (without the multiplication sign \<open>0xD7\<close>) move up by 32.\<close>

definition lower_char :: "char \<Rightarrow> char" where
  "lower_char c =
     (let n = (of_char c :: nat)
      in if (65 \<le> n \<and> n \<le> 90) \<or> (192 \<le> n \<and> n \<le> 222 \<and> n \<noteq> 215) then char_of (n + 32) else c)"

definition toLowerCase :: "string \<Rightarrow> string" where
  "toLowerCase s = map lower_char s"

definition startsWith :: "string \<Rightarrow> string \<Rightarrow> bool" where
  "startsWith s p = (take (length p) s = p)"

text \<open>\<^verbatim>\<open>s.split(',')\<close>: the pieces between the separators; an empty string gives one empty
  piece.\<close>

fun split :: "char \<Rightarrow> string \<Rightarrow> string list" where
  "split sep [] = [[]]"
| "split sep (c # cs) =
     (if c = sep then [] # split sep cs
      else (case split sep cs of
              [] \<Rightarrow> [[c]]
            | piece # pieces \<Rightarrow> (c # piece) # pieces))"

subsection \<open>The three replacements that normalise the separators\<close>

text \<open>\<^verbatim>\<open>replace(/[\r\n]+/g, ',')\<close> and \<^verbatim>\<open>replace(/\s+/g, ',')\<close>: every maximal run of
  characters of the class becomes one comma.\<close>

function replace_runs :: "(char \<Rightarrow> bool) \<Rightarrow> string \<Rightarrow> string" where
  "replace_runs cls [] = []"
| "replace_runs cls (c # cs) =
     (if cls c then CHR '','' # replace_runs cls (dropWhile cls cs)
      else c # replace_runs cls cs)"
  by pat_completeness auto
termination
  by (relation "measure (\<lambda>(cls, s). length s)")
     (auto simp add: length_dropWhile_le le_imp_less_Suc)

definition is_line_break :: "char \<Rightarrow> bool" where
  "is_line_break c = (c = CHR 0x0D \<or> c = CHR 0x0A)"

text \<open>\<^verbatim>\<open>replace(/\s*,\s*/g, ',')\<close>: scanning from the left, a position matches when the white
  space that starts there is followed by a comma; the match takes that white space, the
  comma and the white space after it, and becomes one comma. At a position that does not
  match, the character is kept.\<close>

function normalize_commas :: "string \<Rightarrow> string" where
  "normalize_commas [] = []"
| "normalize_commas (c # cs) =
     (case dropWhile is_space (c # cs) of
        [] \<Rightarrow> c # normalize_commas cs
      | d # ds \<Rightarrow>
          if d = CHR '','' then CHR '','' # normalize_commas (dropWhile is_space ds)
          else c # normalize_commas cs)"
  by pat_completeness auto
termination
proof (relation "measure length")
  show "wf (measure length)" by simp
next
  fix c :: char and cs d ds
  assume a: "dropWhile is_space (c # cs) = d # ds"
  have "length (dropWhile is_space ds) \<le> length ds"
    by (rule length_dropWhile_le)
  also have "length ds < length (d # ds)" by simp
  also have "length (d # ds) \<le> length (c # cs)"
    unfolding a [symmetric] by (rule length_dropWhile_le)
  finally show "(dropWhile is_space ds, c # cs) \<in> measure length" by simp
qed simp_all

subsection \<open>\<^verbatim>\<open>parseInt\<close>\<close>

text \<open>The value of a character as a digit: \<open>0\<close> to \<open>9\<close>, and the letters in either case
  for 10 to 35.\<close>

definition digit_value :: "char \<Rightarrow> nat option" where
  "digit_value c =
     (let n = (of_char c :: nat)
      in if 48 \<le> n \<and> n \<le> 57 then Some (n - 48)
         else if 97 \<le> n \<and> n \<le> 122 then Some (n - 87)
         else if 65 \<le> n \<and> n \<le> 90 then Some (n - 55)
         else None)"

definition is_digit :: "nat \<Rightarrow> char \<Rightarrow> bool" where
  "is_digit radix c = (case digit_value c of None \<Rightarrow> False | Some d \<Rightarrow> d < radix)"

definition digits_value :: "nat \<Rightarrow> string \<Rightarrow> nat" where
  "digits_value radix z = foldl (\<lambda>acc c. acc * radix + the (digit_value c)) 0 z"

text \<open>\<^verbatim>\<open>parseInt(string, radix)\<close> for radix 10 or 16: leading white space is skipped, a sign
  is taken, for radix 16 a prefix \<open>0x\<close> or \<open>0X\<close> is skipped, and the longest run of digits of
  the radix is read; what follows it is ignored. Without a digit the result is \<^verbatim>\<open>NaN\<close>
  (\<open>None\<close>). The value is kept as an exact integer: the routine only compares it with 0
  and 255, which the rounding of a long digit string to a double does not change.\<close>

definition parseInt :: "string \<Rightarrow> nat \<Rightarrow> int option" where
  "parseInt str radix =
     (let s = dropWhile is_space str;
          negative = (s \<noteq> [] \<and> hd s = CHR ''-'');
          s1 = (if s \<noteq> [] \<and> (hd s = CHR ''+'' \<or> hd s = CHR ''-'') then tl s else s);
          s2 = (if radix = 16 \<and> (startsWith s1 ''0x'' \<or> startsWith s1 ''0X'') then drop 2 s1 else s1);
          z = takeWhile (is_digit radix) s2
      in if z = [] then None
         else Some ((if negative then - 1 else 1) * int (digits_value radix z)))"

subsection \<open>\<^verbatim>\<open>parseByteString\<close>\<close>

text \<open>The test \<^verbatim>\<open>/^[0-9a-fA-F]+$/.test(trimmed)\<close>.\<close>

definition is_hex_digit :: "char \<Rightarrow> bool" where
  "is_hex_digit c =
     (let n = (of_char c :: nat)
      in (48 \<le> n \<and> n \<le> 57) \<or> (97 \<le> n \<and> n \<le> 102) \<or> (65 \<le> n \<and> n \<le> 70))"

definition all_hex_digits :: "string \<Rightarrow> bool" where
  "all_hex_digits s = (s \<noteq> [] \<and> list_all is_hex_digit s)"

text \<open>The body of the loop for one non-empty token: the number it stands for, or the
  message of the error that is thrown. The error thrown inside the \<^verbatim>\<open>try\<close> block is caught
  and replaced by the one with this message.\<close>

definition parse_token :: "string \<Rightarrow> string + int" where
  "parse_token trimmed =
     (let v = (if startsWith (toLowerCase trimmed) ''0x'' then parseInt trimmed 16
               else if all_hex_digits trimmed \<and> length trimmed \<le> 2 then parseInt trimmed 16
               else parseInt trimmed 10)
      in case v of
           None \<Rightarrow> Inl (''Invalid byte format at \"'' @ trimmed
                          @ ''\". Expected formats: 0xAB, AB, or decimal 0-255'')
         | Some n \<Rightarrow>
             if n < 0 \<or> 255 < n
             then Inl (''Invalid byte format at \"'' @ trimmed
                          @ ''\". Expected formats: 0xAB, AB, or decimal 0-255'')
             else Inr n)"

text \<open>The loop \<^verbatim>\<open>for (const part of parts)\<close> with the array \<open>bytes\<close> as accumulator.\<close>

fun parse_parts :: "string list \<Rightarrow> int list \<Rightarrow> string + int list" where
  "parse_parts [] bytes = Inr bytes"
| "parse_parts (part # parts) bytes =
     (let trimmed = trim part
      in if trimmed = [] then parse_parts parts bytes
         else (case parse_token trimmed of
                 Inl message \<Rightarrow> Inl message
               | Inr v \<Rightarrow> parse_parts parts (bytes @ [v])))"

definition parseByteString :: "string \<Rightarrow> string + int list" where
  "parseByteString byteString =
     (if trim byteString = [] then Inr []
      else
        let normalizedString =
              replace_runs is_space
                (normalize_commas (replace_runs is_line_break (trim byteString)));
            parts = split CHR '','' normalizedString
        in parse_parts parts [])"

subsection \<open>The image list and \<^verbatim>\<open>addImage\<close>\<close>

text \<open>The interface \<^verbatim>\<open>ImageDataItem\<close>; every field carries the prefix \<open>item_\<close>.\<close>

record ImageDataItem =
  item_id :: string
  item_name :: string
  item_preview :: string
  item_byteData :: "int list"
  item_description :: string
  item_createdAt :: nat
  item_updatedAt :: nat

text \<open>The service object: the in-memory list \<^verbatim>\<open>this.images\<close>, the flag
  \<^verbatim>\<open>this.initialized\<close>, and the list kept in \<^verbatim>\<open>AsyncStorage\<close> under the storage key
  (\<open>None\<close> when nothing is stored), already decoded from its JSON text.\<close>

record service =
  images :: "ImageDataItem list"
  initialized :: bool
  stored :: "ImageDataItem list option"





section \<open>Properties of the chunk partition\<close>

declare chunk_loop.simps [simp del]

lemma upt_0_Suc_map: "[0..<Suc m] = 0 # map Suc [0..<m]"
  by (simp add: upt_conv_Cons map_Suc_upt del: upt_Suc)

lemma chunk_count_step:
  assumes "i < n"
  shows "(n - i + 299) div 300 = Suc ((n - (i + 300) + 299) div 300)"
proof (cases "n - i < 300")
  case True
  with assms have "(n - i + 299) div 300 = 1" by simp
  moreover from True have "n - (i + 300) = 0" by simp
  ultimately show ?thesis by simp
next
  case False
  then have "n - i + 299 = (n - (i + 300) + 299) + 300" by simp
  then show ?thesis by (metis add.commute div_add_self1 zero_neq_numeral Suc_eq_plus1)
qed

lemma chunk_loop_closed:
  "chunk_loop i xs acc =
     acc @ map (\<lambda>j. take 300 (drop (i + 300 * j) xs)) [0..<(length xs - i + 299) div 300]"
proof (induction i xs acc rule: chunk_loop.induct)
  case (1 i xs acc)
  show ?case
  proof (cases "i < length xs")
    case True
    let ?m = "(length xs - (i + 300) + 299) div 300"
    have n: "(length xs - i + 299) div 300 = Suc ?m"
      using True by (rule chunk_count_step)
    have "chunk_loop i xs acc = chunk_loop (i + limitBytes) xs (acc @ [slice xs i (i + limitBytes)])"
      using True by (simp add: chunk_loop.simps [of i xs acc])
    also have "\<dots> = (acc @ [slice xs i (i + limitBytes)]) @
        map (\<lambda>j. take 300 (drop (i + limitBytes + 300 * j) xs)) [0..<(length xs - (i + limitBytes) + 299) div 300]"
      using "1.IH" [OF True] .
    also have "\<dots> = acc @ map (\<lambda>j. take 300 (drop (i + 300 * j) xs)) [0..<Suc ?m]"
      unfolding upt_0_Suc_map by (simp add: limitBytes_def slice_def comp_def add.assoc)
    finally show ?thesis unfolding n .
  next
    case False
    then show ?thesis by (simp add: chunk_loop.simps [of i xs])
  qed
qed

lemma make_chunks_closed:
  "make_chunks xs = map (\<lambda>j. take 300 (drop (300 * j) xs)) [0..<(length xs + 299) div 300]"
  by (simp add: make_chunks_def chunk_loop_closed)

lemma concat_take_drop_upt:
  "concat (map (\<lambda>j. take c (drop (c * j) xs)) [0..<n]) = take (c * n) xs"
proof (induction n)
  case 0
  show ?case by simp
next
  case (Suc n)
  have "concat (map (\<lambda>j. take c (drop (c * j) xs)) [0..<Suc n]) =
      concat (map (\<lambda>j. take c (drop (c * j) xs)) [0..<n]) @ take c (drop (c * n) xs)"
    by simp
  also have "\<dots> = take (c * n) xs @ take c (drop (c * n) xs)"
    by (simp only: Suc.IH)
  also have "\<dots> = take (c * n + c) xs"
    by (rule take_add [symmetric])
  also have "c * n + c = c * Suc n"
    by simp
  finally show ?case .
qed

lemma length_make_chunks: "length (make_chunks xs) = (length xs + 299) div 300"
  by (simp add: make_chunks_closed)

lemma concat_make_chunks: "concat (make_chunks xs) = xs"
proof -
  have "length xs \<le> 300 * ((length xs + 299) div 300)" by arith
  then show ?thesis by (simp add: make_chunks_closed concat_take_drop_upt)
qed

lemma nth_make_chunks:
  "i < length (make_chunks xs) \<Longrightarrow> make_chunks xs ! i = take 300 (drop (300 * i) xs)"
  by (simp add: make_chunks_closed)

lemma chunk_count_pos: "0 < (L::nat) \<Longrightarrow> 0 < (L + 299) div 300"
  by (simp add: div_greater_zero_iff)

lemma full_chunk_bound: "Suc i < ((L::nat) + 299) div 300 \<Longrightarrow> 300 * i + 300 \<le> L"
proof -
  assume "Suc i < (L + 299) div 300"
  then have "Suc (Suc i) \<le> (L + 299) div 300" by simp
  then have "Suc (Suc i) * 300 \<le> L + 299" by (simp only: less_eq_div_iff_mult_less_eq [OF zero_less_numeral])
  then show ?thesis by simp
qed

lemma neg_div_300: "- (- int n div 300) = int ((n + 299) div 300)"
proof -
  have "n = 300 * (n div 300) + n mod 300" by simp
  define q where "q = n div 300"
  define r where "r = n mod 300"
  have n: "n = 300 * q + r" and r: "r < 300" by (simp_all add: q_def r_def)
  show ?thesis
  proof (cases "r = 0")
    case True
    then show ?thesis using n by simp
  next
    case False
    have "(n + 299) div 300 = q + (r + 299) div 300" unfolding n by simp
    also have "(r + 299) div 300 = 1" using False r by simp
    finally have 1: "(n + 299) div 300 = q + 1" .
    have "- int n = (- int q - 1) * 300 + (300 - int r)" unfolding n by simp
    then have "- int n div 300 = (- int q - 1) + (300 - int r) div 300"
      by (metis div_mult_self3 zero_neq_numeral add.commute)
    also have "(300 - int r) div 300 = 0" using False r by simp
    finally show ?thesis using 1 by simp
  qed
qed

lemma last_chunk_length: "0 < (L::nat) \<Longrightarrow> min (L - 300 * ((L + 299) div 300 - 1)) 300 = (if L mod 300 = 0 then 300 else L mod 300)"
proof -
  assume L: "0 < L"
  define q where "q = L div 300"
  define r where "r = L mod 300"
  have n: "L = 300 * q + r" and r: "r < 300" by (simp_all add: q_def r_def)
  have goal: "min (300 * q + r - 300 * ((300 * q + r + 299) div 300 - 1)) 300 = (if r = 0 then 300 else r)"
  proof (cases "r = 0")
    case True
    with L n have "0 < q" by simp
    then obtain q' where "q = Suc q'" by (cases q) auto
    then show ?thesis using True by simp
  next
    case False
    have "(300 * q + r + 299) div 300 = q + (r + 299) div 300" by simp
    also have "(r + 299) div 300 = 1" using False r by simp
    finally have 1: "(300 * q + r + 299) div 300 = q + 1" .
    show ?thesis unfolding 1 using False r by (simp add: min_def)
  qed
  have "L mod 300 = r" by (simp add: r_def)
  then show ?thesis using goal n by simp
qed



lemma ceil_div_300: "\<lceil>(of_nat n :: rat) / 300\<rceil> = int ((n + 299) div 300)"
proof -
  have "\<lceil>(of_nat n :: rat) / 300\<rceil> = \<lceil>(of_int (int n) :: rat) / of_int 300\<rceil>" by simp
  also have "\<dots> = - (- int n div 300)" by (rule ceiling_divide_eq_div)
  also have "\<dots> = int ((n + 299) div 300)" by (rule neg_div_300)
  finally show ?thesis .
qed

text \<open>Claim C1. A non-empty payload of length \<open>L\<close> is cut into exactly \<open>\<lceil>L / 300\<rceil>\<close>
  chunks; chunk \<open>i\<close> is the contiguous slice of positions \<open>300 i\<close> up to \<open>300 i + 300\<close>, so the
  chunks follow each other in order without overlap; every chunk before the last has length
  300, the last one has length 300 when 300 divides \<open>L\<close> and \<open>L mod 300\<close> otherwise; and the
  chunks concatenated in order are the payload.\<close>

theorem chunks_partition_payload:
  assumes "byteData \<noteq> []"
  shows "int (length (make_chunks byteData)) = \<lceil>(of_nat (length byteData) :: rat) / 300\<rceil>
    \<and> (\<forall>i < length (make_chunks byteData).
          make_chunks byteData ! i = slice byteData (300 * i) (300 * i + 300))
    \<and> (\<forall>i. Suc i < length (make_chunks byteData) \<longrightarrow> length (make_chunks byteData ! i) = 300)
    \<and> length (last (make_chunks byteData)) =
          (if length byteData mod 300 = 0 then 300 else length byteData mod 300)
    \<and> concat (make_chunks byteData) = byteData"
proof -
  let ?L = "length byteData"
  let ?n = "(?L + 299) div 300"
  have L: "0 < ?L" using assms by simp
  have n: "length (make_chunks byteData) = ?n" by (rule length_make_chunks)
  have c1: "int (length (make_chunks byteData)) = \<lceil>(of_nat ?L :: rat) / 300\<rceil>"
    by (simp only: n ceil_div_300)
  have c2: "\<forall>i < length (make_chunks byteData).
      make_chunks byteData ! i = slice byteData (300 * i) (300 * i + 300)"
    by (simp add: nth_make_chunks slice_def)
  have c3: "\<forall>i. Suc i < length (make_chunks byteData) \<longrightarrow> length (make_chunks byteData ! i) = 300"
  proof (intro allI impI)
    fix i assume a: "Suc i < length (make_chunks byteData)"
    then have "300 * i + 300 \<le> ?L" unfolding n by (rule full_chunk_bound)
    moreover have "make_chunks byteData ! i = take 300 (drop (300 * i) byteData)"
      using a by (simp add: nth_make_chunks)
    ultimately show "length (make_chunks byteData ! i) = 300" by simp
  qed
  have pos: "0 < ?n" using L by (rule chunk_count_pos)
  then have ne: "make_chunks byteData \<noteq> []" using n by auto
  have "last (make_chunks byteData) = make_chunks byteData ! (?n - 1)"
    using ne n by (simp add: last_conv_nth)
  also have "\<dots> = take 300 (drop (300 * (?n - 1)) byteData)"
    using pos n by (simp add: nth_make_chunks)
  finally have "length (last (make_chunks byteData)) = min (?L - 300 * (?n - 1)) 300"
    by simp
  also have "\<dots> = (if ?L mod 300 = 0 then 300 else ?L mod 300)"
    using L by (rule last_chunk_length)
  finally have c4: "length (last (make_chunks byteData)) =
      (if ?L mod 300 = 0 then 300 else ?L mod 300)" .
  from c1 c2 c3 c4 concat_make_chunks [of byteData] show ?thesis by blast
qed


text \<open>The theorem at a payload of 700 bytes: three chunks, the last of 100 bytes.\<close>

theorem chunks_partition_payload_witness:
  "replicate 700 (0::int) \<noteq> []
   \<and> length (make_chunks (replicate 700 (0::int))) = 3
   \<and> length (last (make_chunks (replicate 700 (0::int)))) = 100
   \<and> concat (make_chunks (replicate 700 (0::int))) = replicate 700 0"
proof -
  have ne: "replicate 700 (0::int) \<noteq> []" by simp
  have c: "\<lceil>(7::rat) / 3\<rceil> = 3" by (rule ceiling_unique) simp_all
  show ?thesis using chunks_partition_payload [OF ne] c by simp
qed


section \<open>Round trip of the transport encoding\<close>

lemma sextet1: "(a::nat) < 256 \<Longrightarrow> a div 4 < 64"
  by simp

lemma sextet2:
  assumes "(b::nat) < 256"
  shows "(a mod 4) * 16 + b div 16 < 64"
proof -
  from assms have "b div 16 < 16" by simp
  moreover have "a mod 4 \<le> 3" by simp
  ultimately show ?thesis by linarith
qed

lemma sextet3:
  assumes "(c::nat) < 256"
  shows "(b mod 16) * 4 + c div 64 < 64"
proof -
  from assms have "c div 64 < 4" by simp
  moreover have "b mod 16 \<le> 15" by simp
  ultimately show ?thesis by linarith
qed

lemma octet1:
  assumes "(b::nat) < 256"
  shows "(a div 4) * 4 + ((a mod 4) * 16 + b div 16) div 16 = a"
proof -
  from assms have "b div 16 < 16" by simp
  then have "((a mod 4) * 16 + b div 16) div 16 = a mod 4" by simp
  then show ?thesis by simp
qed

lemma octet2:
  assumes "(b::nat) < 256" "(c::nat) < 256"
  shows "(((a mod 4) * 16 + b div 16) mod 16) * 16 + ((b mod 16) * 4 + c div 64) div 4 = b"
proof -
  from assms have "c div 64 < 4" by simp
  then have 1: "((b mod 16) * 4 + c div 64) div 4 = b mod 16" by simp
  from assms have "b div 16 < 16" by simp
  then have 2: "((a mod 4) * 16 + b div 16) mod 16 = b div 16" by simp
  show ?thesis unfolding 1 2 by simp
qed

lemma octet3:
  assumes "(c::nat) < 256"
  shows "(((b mod 16) * 4 + c div 64) mod 4) * 64 + c mod 64 = c"
proof -
  from assms have "c div 64 < 4" by simp
  then have "((b mod 16) * 4 + c div 64) mod 4 = c div 64" by simp
  then show ?thesis by simp
qed


lemma keyStr_index_all: "list_all (\<lambda>n. indexOf keyStr (keyStr ! n) = n) [0..<65]"
  by code_simp

lemma keyStr_index: "n < 65 \<Longrightarrow> indexOf keyStr (keyStr ! n) = n"
  using keyStr_index_all by (simp add: list_all_iff)

lemma of_char_less_256: "(of_char c :: nat) < 256"
  using of_char_mod_256 [of c, where ?'a = nat] by (metis mod_less_divisor zero_less_numeral)

lemma decode_group:
  assumes "e1 < 64" "e2 < 64" "e3 < 65" "e4 < 65"
  shows "base64_decode (keyStr ! e1 # keyStr ! e2 # keyStr ! e3 # keyStr ! e4 # rest) =
     [char_of (e1 * 4 + e2 div 16)]
     @ (if e3 \<noteq> 64 then [char_of ((e2 mod 16) * 16 + e3 div 4)] else [])
     @ (if e4 \<noteq> 64 then [char_of ((e3 mod 4) * 64 + e4)] else [])
     @ base64_decode rest"
  using assms by (simp add: keyStr_index Let_def)

lemma base64_roundtrip: "base64_decode (base64_encode s) = s"
proof (induction s rule: base64_encode.induct)
  case 1
  show ?case by simp
next
  case (2 c1)
  define a where "a = (of_char c1 :: nat)"
  have a: "a < 256" by (simp add: a_def of_char_less_256)
  have "base64_encode [c1] = [keyStr ! (a div 4), keyStr ! ((a mod 4) * 16 + 0 div 16), keyStr ! 64, keyStr ! 64]"
    by (simp add: a_def Let_def)
  also have "base64_decode \<dots> = [char_of a]"
    using a sextet2 [of 0 a] octet1 [of 0 a] by (subst decode_group) simp_all
  finally show ?case by (simp add: a_def Let_def)
next
  case (3 c1 c2)
  define a where "a = (of_char c1 :: nat)"
  define b where "b = (of_char c2 :: nat)"
  have a: "a < 256" and b: "b < 256" by (simp_all add: a_def b_def of_char_less_256)
  have "base64_encode [c1, c2] = [keyStr ! (a div 4), keyStr ! ((a mod 4) * 16 + b div 16),
      keyStr ! ((b mod 16) * 4 + 0 div 64), keyStr ! 64]"
    by (simp add: a_def b_def Let_def)
  also have "base64_decode \<dots> = [char_of a, char_of b]"
    using a b sextet2 [of b a] sextet3 [of 0 b] octet1 [of b a] octet2 [of b 0 a]
    by (subst decode_group) simp_all
  finally show ?case by (simp add: a_def b_def Let_def)
next
  case (4 c1 c2 c3 rest)
  define a where "a = (of_char c1 :: nat)"
  define b where "b = (of_char c2 :: nat)"
  define c where "c = (of_char c3 :: nat)"
  have a: "a < 256" and b: "b < 256" and c: "c < 256"
    by (simp_all add: a_def b_def c_def of_char_less_256)
  have "base64_encode (c1 # c2 # c3 # rest) =
      keyStr ! (a div 4) # keyStr ! ((a mod 4) * 16 + b div 16) #
      keyStr ! ((b mod 16) * 4 + c div 64) # keyStr ! (c mod 64) # base64_encode rest"
    by (simp add: a_def b_def c_def Let_def)
  also have "base64_decode \<dots> = [char_of a, char_of b, char_of c] @ base64_decode (base64_encode rest)"
    using a b c sextet2 [of b a] sextet3 [of c b] octet1 [of b a] octet2 [of b c a] octet3 [of c b]
    by (subst decode_group) simp_all
  finally show ?case using "4.IH" by (simp add: a_def b_def c_def Let_def)
qed


text \<open>Claim C6. For every byte sequence with elements between 0 and 255, encoding it with
  \<open>bytesToBase64\<close> (the encoding of every chunk write) and decoding the text gives a binary
  string whose character codes are the original bytes.\<close>

theorem transport_encoding_roundtrip:
  assumes "\<forall>b \<in> set bytes. 0 \<le> b \<and> b \<le> 255"
  shows "map of_char (base64_decode (bytesToBase64 bytes)) = bytes"
proof -
  have "map of_char (base64_decode (bytesToBase64 bytes)) =
      map (\<lambda>byte. (of_char (char_of (byte mod 256) :: char) :: int)) bytes"
    by (simp add: bytesToBase64_def base64_roundtrip comp_def)
  also have "\<dots> = map (\<lambda>byte. byte) bytes"
  proof (rule map_cong [OF refl])
    fix byte assume "byte \<in> set bytes"
    with assms have "0 \<le> byte" "byte < 256" by auto
    then show "(of_char (char_of (byte mod 256) :: char) :: int) = byte"
      by (simp add: of_char_of)
  qed
  finally show ?thesis by simp
qed

text \<open>The theorem at the end marker and at a chunk of five bytes.\<close>

theorem transport_encoding_roundtrip_witness:
  "map of_char (base64_decode (bytesToBase64 [255, 255, 255, 255])) = [255, 255, 255, 255 :: int]
   \<and> map of_char (base64_decode (bytesToBase64 [0, 77, 128, 200, 255])) = [0, 77, 128, 200, 255 :: int]"
  using transport_encoding_roundtrip [of "[255, 255, 255, 255]"]
    transport_encoding_roundtrip [of "[0, 77, 128, 200, 255]"]
  by simp

section \<open>Properties of the double rounding\<close>

lemma bitlen_pos: "0 < a \<Longrightarrow> 1 \<le> bitlen a"
  using bitlen_bounds [of a] bitlen_nonneg [of a]
  by (cases "bitlen a = 0") auto

lemma bitlen_powi:
  assumes "0 < a"
  shows "(2::rat) powi (bitlen a - 1) \<le> of_int a" and "(of_int a :: rat) < 2 powi bitlen a"
proof -
  have b1: "1 \<le> bitlen a" using assms by (rule bitlen_pos)
  have lo: "2 ^ nat (bitlen a - 1) \<le> a" and hi: "a < 2 ^ nat (bitlen a)"
    using bitlen_bounds [OF assms] by simp_all
  have "(of_int (2 ^ nat (bitlen a - 1)) :: rat) \<le> of_int a"
    using lo by (simp only: of_int_le_iff)
  then show "(2::rat) powi (bitlen a - 1) \<le> of_int a"
    using b1 by (simp add: power_int_def)
  have "(of_int a :: rat) < of_int (2 ^ nat (bitlen a))"
    using hi by (simp only: of_int_less_iff)
  then show "(of_int a :: rat) < 2 powi bitlen a"
    using b1 by (simp add: power_int_def)
qed

lemma floor_log2_bounds:
  assumes "0 < x"
  shows "2 powi floor_log2 x \<le> x" and "x < 2 powi (floor_log2 x + 1)"
proof -
  obtain a b where q: "quotient_of x = (a, b)" by (cases "quotient_of x")
  have b: "0 < b" using q by (rule quotient_of_denom_pos)
  have x: "x = of_int a / of_int b" using q by (rule quotient_of_div)
  have a: "0 < a" using assms b unfolding x by (simp add: zero_less_divide_iff)
  define d where "d = bitlen a - bitlen b"
  have fl: "floor_log2 x = (if 2 powi d \<le> x then d else d - 1)"
    by (simp add: floor_log2_def q d_def Let_def)
  have bpos: "(0::rat) < of_int b" using b by simp
  have "x < 2 powi bitlen a / 2 powi (bitlen b - 1)"
    unfolding x using bitlen_powi [OF a] bitlen_powi [OF b] a b
    by (intro frac_less) simp_all
  also have "\<dots> = 2 powi (d + 1)"
    by (simp add: d_def power_int_diff [symmetric] algebra_simps)
  finally have up: "x < 2 powi (d + 1)" .
  have "2 powi (bitlen a - 1) / 2 powi bitlen b \<le> x"
    unfolding x using bitlen_powi [OF a] bitlen_powi [OF b] a b
    by (intro frac_le) simp_all
  moreover have "(2::rat) powi (bitlen a - 1) / 2 powi bitlen b = 2 powi (d - 1)"
    by (simp add: d_def power_int_diff [symmetric] algebra_simps)
  ultimately have lo: "2 powi (d - 1) \<le> x" by simp
  show "2 powi floor_log2 x \<le> x" using lo by (simp add: fl)
  show "x < 2 powi (floor_log2 x + 1)" using up by (auto simp add: fl not_le)
qed


lemma powi2_less_cancel: "(2::rat) powi m < 2 powi n \<Longrightarrow> m < n"
proof (rule ccontr)
  assume lt: "(2::rat) powi m < 2 powi n" and "\<not> m < n"
  then have "n \<le> m" by simp
  then have "(2::rat) powi n \<le> 2 powi m" by (intro power_int_increasing) simp_all
  with lt show False by simp
qed

lemma powi2_pos: "(0::rat) < 2 powi k"
  by (simp add: zero_less_power_int)

lemma floor_log2_unique:
  assumes "0 < x" "2 powi k \<le> x" "x < 2 powi (k + 1)"
  shows "floor_log2 x = k"
proof -
  have "(2::rat) powi floor_log2 x < 2 powi (k + 1)"
    using floor_log2_bounds(1) [OF assms(1)] assms(3) by (rule le_less_trans)
  then have 1: "floor_log2 x < k + 1" by (rule powi2_less_cancel)
  have "(2::rat) powi k < 2 powi (floor_log2 x + 1)"
    using assms(2) floor_log2_bounds(2) [OF assms(1)] by (rule le_less_trans)
  then have 2: "k < floor_log2 x + 1" by (rule powi2_less_cancel)
  from 1 2 show ?thesis by simp
qed

lemma floor_log2_mono:
  assumes "0 < x" "x \<le> y"
  shows "floor_log2 x \<le> floor_log2 y"
proof -
  have y: "0 < y" using assms by simp
  have "2 powi floor_log2 x \<le> x" using assms(1) by (rule floor_log2_bounds)
  also have "x \<le> y" by fact
  also have "y < 2 powi (floor_log2 y + 1)" using y by (rule floor_log2_bounds)
  finally have "floor_log2 x < floor_log2 y + 1" by (rule powi2_less_cancel)
  then show ?thesis by simp
qed

lemma round_half_even_range: "\<lfloor>x\<rfloor> \<le> round_half_even x \<and> round_half_even x \<le> \<lfloor>x\<rfloor> + 1"
  by (simp add: round_half_even_def Let_def)

lemma round_half_even_of_int [simp]: "round_half_even (of_int n) = n"
  by (simp add: round_half_even_def Let_def)

lemma round_half_even_numeral [simp]: "round_half_even (numeral k) = numeral k"
  using round_half_even_of_int [of "numeral k"] by simp

lemma round_half_even_mono:
  assumes "x \<le> y"
  shows "round_half_even x \<le> round_half_even y"
proof (cases "\<lfloor>x\<rfloor> = \<lfloor>y\<rfloor>")
  case True
  have "x - of_int \<lfloor>x\<rfloor> \<le> y - of_int \<lfloor>y\<rfloor>" using assms True by simp
  then show ?thesis using True by (auto simp add: round_half_even_def Let_def)
next
  case False
  have "\<lfloor>x\<rfloor> \<le> \<lfloor>y\<rfloor>" using assms by (rule floor_mono)
  with False have "\<lfloor>x\<rfloor> + 1 \<le> \<lfloor>y\<rfloor>" by simp
  then show ?thesis
    using round_half_even_range [of x] round_half_even_range [of y] by linarith
qed

lemma round_half_even_ge: "of_int n \<le> x \<Longrightarrow> n \<le> round_half_even x"
  using round_half_even_mono [of "of_int n" x] by simp

lemma round_half_even_le: "x \<le> of_int n \<Longrightarrow> round_half_even x \<le> n"
  using round_half_even_mono [of x "of_int n"] by simp


lemma significand_range:
  assumes "0 < x"
  shows "2 ^ 52 \<le> x / 2 powi (floor_log2 x - 52)" and "x / 2 powi (floor_log2 x - 52) \<le> 2 ^ 53"
proof -
  let ?L = "floor_log2 x"
  have p: "(0::rat) < 2 powi (?L - 52)" by (rule powi2_pos)
  have "(2::rat) powi ?L / 2 powi (?L - 52) \<le> x / 2 powi (?L - 52)"
    using floor_log2_bounds(1) [OF assms] p by (intro divide_right_mono) simp_all
  moreover have "(2::rat) powi ?L / 2 powi (?L - 52) = 2 ^ 52"
    by (simp add: power_int_diff [symmetric])
  ultimately show "2 ^ 52 \<le> x / 2 powi (?L - 52)" by simp
  have "x / 2 powi (?L - 52) \<le> (2::rat) powi (?L + 1) / 2 powi (?L - 52)"
    using floor_log2_bounds(2) [OF assms] p by (intro divide_right_mono) simp_all
  moreover have "(2::rat) powi (?L + 1) / 2 powi (?L - 52) = 2 ^ 53"
    by (simp add: power_int_diff [symmetric])
  ultimately show "x / 2 powi (?L - 52) \<le> 2 ^ 53" by simp
qed

lemma to_double_pos_range:
  assumes "0 < x"
  shows "2 powi floor_log2 x \<le> to_double_pos x" and "to_double_pos x \<le> 2 powi (floor_log2 x + 1)"
proof -
  let ?L = "floor_log2 x"
  let ?m = "x / 2 powi (?L - 52)"
  have p: "(0::rat) < 2 powi (?L - 52)" by (rule powi2_pos)
  have td: "to_double_pos x = of_int (round_half_even ?m) * 2 powi (?L - 52)"
    by (simp add: to_double_pos_def Let_def)
  have "of_int (2 ^ 52) \<le> ?m" using significand_range(1) [OF assms] by simp
  then have "2 ^ 52 \<le> round_half_even ?m" by (rule round_half_even_ge)
  then have "(of_int (2 ^ 52) :: rat) \<le> of_int (round_half_even ?m)" by (simp only: of_int_le_iff)
  then have "(2::rat) ^ 52 * 2 powi (?L - 52) \<le> to_double_pos x"
    unfolding td using p by (intro mult_right_mono) simp_all
  moreover have "(2::rat) ^ 52 * 2 powi (?L - 52) = 2 powi ?L"
    using power_int_add [of "2::rat" 52 "?L - 52"] by simp
  ultimately show "2 powi ?L \<le> to_double_pos x" by simp
  have "?m \<le> of_int (2 ^ 53)" using significand_range(2) [OF assms] by simp
  then have "round_half_even ?m \<le> 2 ^ 53" by (rule round_half_even_le)
  then have "(of_int (round_half_even ?m) :: rat) \<le> of_int (2 ^ 53)" by (simp only: of_int_le_iff)
  then have "to_double_pos x \<le> (2::rat) ^ 53 * 2 powi (?L - 52)"
    unfolding td using p by (intro mult_right_mono) simp_all
  moreover have "(2::rat) ^ 53 * 2 powi (?L - 52) = 2 powi (?L + 1)"
    using power_int_add [of "2::rat" 53 "?L - 52"] by (simp add: add.commute)
  ultimately show "to_double_pos x \<le> 2 powi (?L + 1)" by simp
qed

lemma to_double_pos_mono:
  assumes "0 < x" "x \<le> y"
  shows "to_double_pos x \<le> to_double_pos y"
proof (cases "floor_log2 x = floor_log2 y")
  case True
  let ?p = "(2::rat) powi (floor_log2 y - 52)"
  have p: "0 < ?p" by (rule powi2_pos)
  have "x / ?p \<le> y / ?p" using assms(2) p by (intro divide_right_mono) simp_all
  then have "round_half_even (x / ?p) \<le> round_half_even (y / ?p)" by (rule round_half_even_mono)
  then have "(of_int (round_half_even (x / ?p)) :: rat) \<le> of_int (round_half_even (y / ?p))"
    by (simp only: of_int_le_iff)
  then have "of_int (round_half_even (x / ?p)) * ?p \<le> of_int (round_half_even (y / ?p)) * ?p"
    using p by (intro mult_right_mono) simp_all
  then show ?thesis using True by (simp add: to_double_pos_def Let_def)
next
  case False
  have y: "0 < y" using assms by simp
  have "floor_log2 x \<le> floor_log2 y" using assms by (rule floor_log2_mono)
  with False have "floor_log2 x + 1 \<le> floor_log2 y" by simp
  then have "(2::rat) powi (floor_log2 x + 1) \<le> 2 powi floor_log2 y"
    by (intro power_int_increasing) simp_all
  then show ?thesis
    using to_double_pos_range(2) [OF assms(1)] to_double_pos_range(1) [OF y] by linarith
qed

lemma to_double_pos_positive: "0 < x \<Longrightarrow> 0 < to_double_pos x"
  using to_double_pos_range(1) [of x] powi2_pos [of "floor_log2 x"] by linarith

lemma to_double_mono:
  assumes "0 \<le> x" "x \<le> y"
  shows "to_double x \<le> to_double y"
proof (cases "x = 0")
  case True
  then show ?thesis using assms to_double_pos_positive [of y]
    by (cases "y = 0") (simp_all add: to_double_def less_imp_le)
next
  case False
  with assms have "0 < x" "0 < y" by simp_all
  then show ?thesis using to_double_pos_mono [of x y] assms by (simp add: to_double_def)
qed

lemma to_double_binade:
  assumes "0 < x" "2 powi k \<le> x" "x < 2 powi (k + 1)"
  shows "to_double x = of_int (round_half_even (x / 2 powi (k - 52))) * 2 powi (k - 52)"
  using assms floor_log2_unique [OF assms] by (simp add: to_double_def to_double_pos_def Let_def)

lemma to_double_1: "to_double 1 = 1"
  by (subst to_double_binade [where k = 0]) (simp_all add: power_int_minus)

lemma to_double_100: "to_double 100 = 100"
  by (subst to_double_binade [where k = 6]) (simp_all add: power_int_minus)


subsection \<open>The progress percentage\<close>

lemma floor_rat_divide_numeral:
  "\<lfloor>(numeral a :: rat) / numeral b\<rfloor> = numeral a div numeral b"
  using floor_divide_of_int_eq [of "numeral a" "numeral b", where ?'a = rat] by simp

lemma double_23_40: "to_double (23 / 40) = 5179139571476070 / 2 ^ 53"
  by (subst to_double_binade [where k = "- 1"])
     (simp_all add: power_int_minus round_half_even_def Let_def floor_rat_divide_numeral)

lemma double_57: "to_double (5179139571476070 / 2 ^ 53 * 100) = 8092405580431359 / 2 ^ 47"
  by (subst to_double_binade [where k = 5])
     (simp_all add: power_int_minus round_half_even_def Let_def floor_rat_divide_numeral)

lemma progress_6900_12000: "progress_of 6900 12000 = Num 57"
proof -
  have 1: "js_divide 6900 12000 = Num (to_double (23 / 40))"
    by (simp add: js_divide_def)
  have 2: "js_multiply (Num (5179139571476070 / 2 ^ 53)) 100 = Num (8092405580431359 / 2 ^ 47)"
    by (simp only: js_multiply.simps double_57)
  have 3: "Math_round (Num (8092405580431359 / 2 ^ 47)) = Num 57"
    by (simp add: floor_rat_divide_numeral)
  show ?thesis unfolding progress_of_def 1 double_23_40 2 3 ..
qed


lemma progress_of_pos:
  "0 < len \<Longrightarrow> progress_of c len =
     Num (of_int \<lfloor>to_double (to_double (of_nat c / of_nat len) * 100) + 1 / 2\<rfloor>)"
  by (simp add: progress_of_def js_divide_def)

lemma to_double_nonneg: "0 \<le> x \<Longrightarrow> 0 \<le> to_double x"
  using to_double_mono [of 0 x] by (simp add: to_double_def)

lemma percent_mono:
  assumes "0 < len" "c1 \<le> c2"
  shows "\<lfloor>to_double (to_double (of_nat c1 / of_nat len) * 100) + 1 / 2\<rfloor>
       \<le> \<lfloor>to_double (to_double (of_nat c2 / of_nat len) * 100) + 1 / 2\<rfloor>"
proof -
  have "(of_nat c1 :: rat) / of_nat len \<le> of_nat c2 / of_nat len"
    using assms by (intro divide_right_mono) simp_all
  then have "to_double (of_nat c1 / of_nat len) \<le> to_double (of_nat c2 / of_nat len)"
    by (intro to_double_mono) simp_all
  then have "to_double (of_nat c1 / of_nat len) * 100 \<le> to_double (of_nat c2 / of_nat len) * 100"
    by simp
  moreover have "0 \<le> to_double (of_nat c1 / of_nat len) * 100"
    using to_double_nonneg [of "of_nat c1 / of_nat len"] by simp
  ultimately have "to_double (to_double (of_nat c1 / of_nat len) * 100)
      \<le> to_double (to_double (of_nat c2 / of_nat len) * 100)"
    by (intro to_double_mono)
  then show ?thesis by (intro floor_mono) simp
qed

lemma percent_bounds:
  assumes "0 < len" "c \<le> len"
  shows "0 \<le> \<lfloor>to_double (to_double (of_nat c / of_nat len) * 100) + 1 / 2\<rfloor>"
    and "\<lfloor>to_double (to_double (of_nat c / of_nat len) * 100) + 1 / 2\<rfloor> \<le> 100"
proof -
  let ?q = "to_double (of_nat c / of_nat len)"
  have q0: "0 \<le> ?q" by (intro to_double_nonneg) simp
  have "(of_nat c :: rat) / of_nat len \<le> 1" using assms by simp
  then have "?q \<le> to_double 1" by (intro to_double_mono) simp_all
  then have q1: "?q \<le> 1" by (simp add: to_double_1)
  have p0: "0 \<le> to_double (?q * 100)" using q0 by (intro to_double_nonneg) simp
  have "to_double (?q * 100) \<le> to_double 100"
    using q0 q1 by (intro to_double_mono) simp_all
  then have p1: "to_double (?q * 100) \<le> 100" by (simp add: to_double_100)
  show "0 \<le> \<lfloor>to_double (?q * 100) + 1 / 2\<rfloor>" using p0 by simp
  have "\<lfloor>to_double (?q * 100) + 1 / 2\<rfloor> \<le> \<lfloor>(100::rat) + 1 / 2\<rfloor>"
    using p1 by (intro floor_mono) simp
  also have "\<lfloor>(100::rat) + 1 / 2\<rfloor> = 100" by (rule floor_unique) simp_all
  finally show "\<lfloor>to_double (?q * 100) + 1 / 2\<rfloor> \<le> 100" .
qed

lemma progress_of_mono:
  "0 < len \<Longrightarrow> c1 \<le> c2 \<Longrightarrow> js_le (progress_of c1 len) (progress_of c2 len)"
  using percent_mono [of len c1 c2] by (simp add: progress_of_pos)

lemma progress_of_range:
  "0 < len \<Longrightarrow> c \<le> len \<Longrightarrow>
     js_le (Num 0) (progress_of c len) \<and> js_le (progress_of c len) (Num 100)"
  using percent_bounds [of len c] by (simp add: progress_of_pos)

lemma progress_of_full: "0 < len \<Longrightarrow> progress_of len len = Num 100"
  by (simp add: progress_of_def js_divide_def to_double_1 to_double_100 floor_rat_divide_numeral)


section \<open>Properties of the transfer routine\<close>

lemma writes_of_append [simp]: "writes_of (xs @ ys) = writes_of xs @ writes_of ys"
  by (induction xs rule: writes_of.induct) simp_all

lemma emitted_progress_append [simp]:
  "emitted_progress (xs @ ys) = emitted_progress xs @ emitted_progress ys"
  by (induction xs rule: emitted_progress.induct) simp_all

lemmas setter_defs =
  setIsStreaming_def setStreamingProgress_def setStreamingStatus_def sleep_def scheduleReset_def

lemma stream_chunks_Cons:
  "stream_chunks dev len (chunk # rest) s =
     (if write_ok dev (length (writes_of (trace s))) (bytesToBase64 chunk)
      then stream_chunks dev len rest
             (s\<lparr>count := count s + length chunk,
                streamingProgress := progress_of (count s + length chunk) len,
                streamingStatus :=
                  ''Streaming... '' @ number_to_string (progress_of (count s + length chunk) len)
                    @ ''% ('' @ show_nat (count s + length chunk) @ ''/'' @ show_nat len @ '' bytes)'',
                trace := trace s @
                    [WriteCharacteristic DATA_SERVICE_UUID COLOR_CHARACTERISTIC_UUID (bytesToBase64 chunk),
                     SetStreamingProgress (progress_of (count s + length chunk) len),
                     SetStreamingStatus
                       (''Streaming... '' @ number_to_string (progress_of (count s + length chunk) len)
                          @ ''% ('' @ show_nat (count s + length chunk) @ ''/'' @ show_nat len @ '' bytes)''),
                     Sleep 100]\<rparr>)
      else Inl (s\<lparr>trace := trace s @
                    [WriteCharacteristic DATA_SERVICE_UUID COLOR_CHARACTERISTIC_UUID (bytesToBase64 chunk)]\<rparr>))"
  by (simp add: writeCharacteristicWithResponseForService_def Let_def setter_defs)

lemma stream_chunks_Inr:
  "stream_chunks dev len chunks s = Inr s' \<Longrightarrow>
     writes_of (trace s') = writes_of (trace s) @ map bytesToBase64 chunks
   \<and> count s' = count s + length (concat chunks)
   \<and> emitted_progress (trace s') = emitted_progress (trace s) @
        map (\<lambda>j. progress_of (count s + length (concat (take (Suc j) chunks))) len) [0..<length chunks]
   \<and> isStreaming s' = isStreaming s
   \<and> (\<forall>j<length chunks.
         write_ok dev (length (writes_of (trace s)) + j) (bytesToBase64 (chunks ! j)))"
proof (induction chunks arbitrary: s)
  case Nil
  then show ?case by simp
next
  case (Cons chunk rest)
  let ?p = "progress_of (count s + length chunk) len"
  let ?m = "''Streaming... '' @ number_to_string ?p
      @ ''% ('' @ show_nat (count s + length chunk) @ ''/'' @ show_nat len @ '' bytes)''"
  let ?s5 = "s\<lparr>count := count s + length chunk, streamingProgress := ?p, streamingStatus := ?m,
      trace := trace s @
      [WriteCharacteristic DATA_SERVICE_UUID COLOR_CHARACTERISTIC_UUID (bytesToBase64 chunk),
       SetStreamingProgress ?p, SetStreamingStatus ?m, Sleep 100]\<rparr>"
  from Cons.prems have ok: "write_ok dev (length (writes_of (trace s))) (bytesToBase64 chunk)"
    and run: "stream_chunks dev len rest ?s5 = Inr s'"
    by (simp_all add: stream_chunks_Cons del: stream_chunks.simps split: if_splits)
  note IH = Cons.IH [OF run]
  have w: "writes_of (trace s') = writes_of (trace s) @ map bytesToBase64 (chunk # rest)"
    using IH by simp
  have c: "count s' = count s + length (concat (chunk # rest))"
    using IH by simp
  have e: "emitted_progress (trace s') = emitted_progress (trace s) @
      map (\<lambda>j. progress_of (count s + length (concat (take (Suc j) (chunk # rest)))) len)
        [0..<length (chunk # rest)]"
    using IH by (simp add: upt_0_Suc_map comp_def add.assoc del: upt_Suc)
  have i: "isStreaming s' = isStreaming s"
    using IH by simp
  have a: "\<forall>j<length (chunk # rest).
      write_ok dev (length (writes_of (trace s)) + j) (bytesToBase64 ((chunk # rest) ! j))"
  proof (intro allI impI)
    fix j assume j: "j < length (chunk # rest)"
    show "write_ok dev (length (writes_of (trace s)) + j) (bytesToBase64 ((chunk # rest) ! j))"
    proof (cases j)
      case 0
      then show ?thesis using ok by simp
    next
      case (Suc j')
      then show ?thesis using IH j by simp
    qed
  qed
  from w c e i a show ?case by blast
qed


lemma stream_chunks_Inl:
  "stream_chunks dev len chunks s = Inl s' \<Longrightarrow>
     \<exists>k<length chunks.
        writes_of (trace s') = writes_of (trace s) @ map bytesToBase64 (take (Suc k) chunks)
      \<and> count s' = count s + length (concat (take k chunks))
      \<and> emitted_progress (trace s') = emitted_progress (trace s) @
           map (\<lambda>j. progress_of (count s + length (concat (take (Suc j) chunks))) len) [0..<k]
      \<and> (\<forall>j<k. write_ok dev (length (writes_of (trace s)) + j) (bytesToBase64 (chunks ! j)))
      \<and> \<not> write_ok dev (length (writes_of (trace s)) + k) (bytesToBase64 (chunks ! k))"
proof (induction chunks arbitrary: s)
  case Nil
  then show ?case by simp
next
  case (Cons chunk rest)
  let ?p = "progress_of (count s + length chunk) len"
  let ?m = "''Streaming... '' @ number_to_string ?p
      @ ''% ('' @ show_nat (count s + length chunk) @ ''/'' @ show_nat len @ '' bytes)''"
  let ?s5 = "s\<lparr>count := count s + length chunk, streamingProgress := ?p, streamingStatus := ?m,
      trace := trace s @
      [WriteCharacteristic DATA_SERVICE_UUID COLOR_CHARACTERISTIC_UUID (bytesToBase64 chunk),
       SetStreamingProgress ?p, SetStreamingStatus ?m, Sleep 100]\<rparr>"
  let ?P = "\<lambda>k. writes_of (trace s') = writes_of (trace s) @ map bytesToBase64 (take (Suc k) (chunk # rest))
      \<and> count s' = count s + length (concat (take k (chunk # rest)))
      \<and> emitted_progress (trace s') = emitted_progress (trace s) @
           map (\<lambda>j. progress_of (count s + length (concat (take (Suc j) (chunk # rest)))) len) [0..<k]
      \<and> (\<forall>j<k. write_ok dev (length (writes_of (trace s)) + j) (bytesToBase64 ((chunk # rest) ! j)))
      \<and> \<not> write_ok dev (length (writes_of (trace s)) + k) (bytesToBase64 ((chunk # rest) ! k))"
  show ?case
  proof (cases "write_ok dev (length (writes_of (trace s))) (bytesToBase64 chunk)")
    case False
    with Cons.prems have "s' = s\<lparr>trace := trace s @
        [WriteCharacteristic DATA_SERVICE_UUID COLOR_CHARACTERISTIC_UUID (bytesToBase64 chunk)]\<rparr>"
      by (simp add: stream_chunks_Cons del: stream_chunks.simps)
    with False have "?P 0" by simp
    then show ?thesis by (intro exI [of _ 0]) simp
  next
    case True
    with Cons.prems have run: "stream_chunks dev len rest ?s5 = Inl s'"
      by (simp add: stream_chunks_Cons del: stream_chunks.simps)
    from Cons.IH [OF run] obtain k where k: "k < length rest"
      and w: "writes_of (trace s') = writes_of (trace ?s5) @ map bytesToBase64 (take (Suc k) rest)"
      and c: "count s' = count ?s5 + length (concat (take k rest))"
      and e: "emitted_progress (trace s') = emitted_progress (trace ?s5) @
           map (\<lambda>j. progress_of (count ?s5 + length (concat (take (Suc j) rest))) len) [0..<k]"
      and a: "\<forall>j<k. write_ok dev (length (writes_of (trace ?s5)) + j) (bytesToBase64 (rest ! j))"
      and f: "\<not> write_ok dev (length (writes_of (trace ?s5)) + k) (bytesToBase64 (rest ! k))"
      by blast
    have 1: "writes_of (trace s') = writes_of (trace s) @ map bytesToBase64 (take (Suc (Suc k)) (chunk # rest))"
      using w by simp
    have 2: "count s' = count s + length (concat (take (Suc k) (chunk # rest)))"
      using c by simp
    have 3: "emitted_progress (trace s') = emitted_progress (trace s) @
        map (\<lambda>j. progress_of (count s + length (concat (take (Suc j) (chunk # rest)))) len) [0..<Suc k]"
      unfolding e by (simp add: upt_0_Suc_map comp_def add.assoc del: upt_Suc)
    have 4: "\<forall>j<Suc k. write_ok dev (length (writes_of (trace s)) + j) (bytesToBase64 ((chunk # rest) ! j))"
    proof (intro allI impI)
      fix j assume j: "j < Suc k"
      show "write_ok dev (length (writes_of (trace s)) + j) (bytesToBase64 ((chunk # rest) ! j))"
      proof (cases j)
        case 0
        then show ?thesis using True by simp
      next
        case (Suc j')
        then show ?thesis using a j by simp
      qed
    qed
    have 5: "\<not> write_ok dev (length (writes_of (trace s)) + Suc k) (bytesToBase64 ((chunk # rest) ! Suc k))"
      using f by simp
    from 1 2 3 4 5 have "?P (Suc k)" by blast
    moreover have "Suc k < length (chunk # rest)" using k by simp
    ultimately show ?thesis by blast
  qed
qed


lemma begin_streaming_Inr:
  "begin_streaming dev s0 = Inr s5 \<Longrightarrow>
     requestMTU_ok dev \<and> writes_of (trace s5) = writes_of (trace s0)
   \<and> emitted_progress (trace s5) = emitted_progress (trace s0) @ [Num 0] \<and> count s5 = 0"
  by (auto simp add: begin_streaming_def requestMTU_def Let_def setter_defs split: if_splits)

lemma begin_streaming_Inl:
  "begin_streaming dev s0 = Inl t \<Longrightarrow>
     \<not> requestMTU_ok dev \<and> writes_of (trace t) = writes_of (trace s0)
   \<and> emitted_progress (trace t) = emitted_progress (trace s0) @ [Num 0] \<and> count t = count s0"
  by (auto simp add: begin_streaming_def requestMTU_def Let_def setter_defs split: if_splits)

lemma begin_streaming_ok:
  "requestMTU_ok dev \<Longrightarrow> \<exists>s5. begin_streaming dev s0 = Inr s5"
  by (simp add: begin_streaming_def requestMTU_def Let_def)

lemma complete_streaming_Inr:
  "complete_streaming dev s6 = Inr s \<Longrightarrow>
     write_ok dev (length (writes_of (trace s6))) (bytesToBase64 endMarker)
   \<and> writes_of (trace s) = writes_of (trace s6) @ [bytesToBase64 endMarker]
   \<and> emitted_progress (trace s) = emitted_progress (trace s6) @ [Num 100]
   \<and> count s = count s6 \<and> streamingProgress s = Num 100 \<and> \<not> isStreaming s
   \<and> streamingStatus s = ''Streaming completed successfully!''"
  by (auto simp add: complete_streaming_def writeCharacteristicWithResponseForService_def
      Let_def setter_defs split: if_splits)

lemma complete_streaming_Inl:
  "complete_streaming dev s6 = Inl t \<Longrightarrow>
     \<not> write_ok dev (length (writes_of (trace s6))) (bytesToBase64 endMarker)
   \<and> writes_of (trace t) = writes_of (trace s6) @ [bytesToBase64 endMarker]
   \<and> emitted_progress (trace t) = emitted_progress (trace s6)
   \<and> count t = count s6"
  by (auto simp add: complete_streaming_def writeCharacteristicWithResponseForService_def
      Let_def setter_defs split: if_splits)

lemma catch_block_fields:
  "streamingStatus (catch_block t) = ''Error: Streaming failed''"
  "isStreaming (catch_block t) = False"
  "streamingProgress (catch_block t) = streamingProgress t"
  "count (catch_block t) = count t"
  "writes_of (trace (catch_block t)) = writes_of (trace t)"
  "emitted_progress (trace (catch_block t)) = emitted_progress (trace t)"
  by (simp_all add: catch_block_def setter_defs)

lemma startStreamingData_Some:
  "startStreamingData (Some dev) byteData s0 =
     (case try_block dev byteData (s0\<lparr>trace := [], count := 0\<rparr>) of
        Inr s' \<Rightarrow> s' | Inl thrown \<Rightarrow> catch_block thrown)"
  by (simp add: startStreamingData_def)


subsection \<open>Outcomes of a call\<close>

lemma take_upt_min: "take m [0..<n] = [0..<min m n]"
  by (cases "m \<le> n") (simp_all add: min_def)

lemma length_concat_take_chunks:
  "length (concat (take m (make_chunks xs))) = min (300 * m) (length xs)"
proof -
  let ?n = "(length xs + 299) div 300"
  have "take m (make_chunks xs) = map (\<lambda>j. take 300 (drop (300 * j) xs)) [0..<min m ?n]"
    by (simp add: make_chunks_closed take_map take_upt_min)
  then have "length (concat (take m (make_chunks xs))) = min (300 * min m ?n) (length xs)"
    by (simp add: concat_take_drop_upt min.commute)
  also have "\<dots> = min (300 * m) (length xs)"
  proof (cases "m \<le> ?n")
    case True
    then show ?thesis by (simp add: min_absorb1)
  next
    case False
    have "length xs \<le> 300 * ?n" by arith
    moreover from False have "300 * ?n \<le> 300 * m" by simp
    ultimately show ?thesis using False by (simp add: min_def)
  qed
  finally show ?thesis .
qed

lemma length_concat_chunks: "length (concat (make_chunks xs)) = length xs"
  by (simp add: concat_make_chunks)

text \<open>The four ways a call with a device can end: the MTU request throws; the write of
  chunk \<open>k\<close> throws after the chunks before it were acknowledged; the write of the end marker
  throws; everything is acknowledged.\<close>

lemma session_outcomes:
  fixes dev byteData s0
  defines "s \<equiv> startStreamingData (Some dev) byteData s0"
    and "chunks \<equiv> make_chunks byteData"
    and "len \<equiv> length byteData"
  defines "events \<equiv> \<lambda>k. Num 0 # map (\<lambda>j. progress_of (min (300 * Suc j) len) len) [0..<k]"
  shows
    "(\<not> requestMTU_ok dev \<and> streamingStatus s = ''Error: Streaming failed'' \<and> \<not> isStreaming s
        \<and> writes_of (trace s) = [] \<and> emitted_progress (trace s) = events 0 \<and> count s = 0)
   \<or> (requestMTU_ok dev \<and> streamingStatus s = ''Error: Streaming failed'' \<and> \<not> isStreaming s
        \<and> (\<exists>k<length chunks.
              (\<forall>j<k. write_ok dev j (bytesToBase64 (chunks ! j)))
            \<and> \<not> write_ok dev k (bytesToBase64 (chunks ! k))
            \<and> writes_of (trace s) = map bytesToBase64 (take (Suc k) chunks)
            \<and> emitted_progress (trace s) = events k
            \<and> count s = min (300 * k) len))
   \<or> (requestMTU_ok dev \<and> streamingStatus s = ''Error: Streaming failed'' \<and> \<not> isStreaming s
        \<and> (\<forall>j<length chunks. write_ok dev j (bytesToBase64 (chunks ! j)))
        \<and> \<not> write_ok dev (length chunks) (bytesToBase64 endMarker)
        \<and> writes_of (trace s) = map bytesToBase64 chunks @ [bytesToBase64 endMarker]
        \<and> emitted_progress (trace s) = events (length chunks) \<and> count s = len)
   \<or> (requestMTU_ok dev \<and> streamingStatus s = ''Streaming completed successfully!'' \<and> \<not> isStreaming s
        \<and> (\<forall>j<length chunks. write_ok dev j (bytesToBase64 (chunks ! j)))
        \<and> write_ok dev (length chunks) (bytesToBase64 endMarker)
        \<and> writes_of (trace s) = map bytesToBase64 chunks @ [bytesToBase64 endMarker]
        \<and> emitted_progress (trace s) = events (length chunks) @ [Num 100] \<and> count s = len
        \<and> streamingProgress s = Num 100)"
proof -
  let ?start = "s0\<lparr>trace := [], count := 0\<rparr>"
  have s: "s = (case try_block dev byteData ?start of Inr s' \<Rightarrow> s' | Inl thrown \<Rightarrow> catch_block thrown)"
    unfolding s_def by (rule startStreamingData_Some)
  show ?thesis
  proof (cases "begin_streaming dev ?start")
    case (Inl t)
    then have "s = catch_block t" by (simp add: s try_block_def)
    then show ?thesis
      using begin_streaming_Inl [OF Inl] by (simp add: catch_block_fields events_def)
  next
    case (Inr s5)
    note b = begin_streaming_Inr [OF Inr]
    have w5: "writes_of (trace s5) = []" and e5: "emitted_progress (trace s5) = [Num 0]"
      and c5: "count s5 = 0" and mtu: "requestMTU_ok dev"
      using b by simp_all
    show ?thesis
    proof (cases "stream_chunks dev len chunks s5")
      case (Inl t)
      then have st: "s = catch_block t" by (simp add: s try_block_def Inr len_def chunks_def)
      from stream_chunks_Inl [OF Inl] obtain k where k: "k < length chunks"
        and w: "writes_of (trace t) = writes_of (trace s5) @ map bytesToBase64 (take (Suc k) chunks)"
        and c: "count t = count s5 + length (concat (take k chunks))"
        and e: "emitted_progress (trace t) = emitted_progress (trace s5) @
             map (\<lambda>j. progress_of (count s5 + length (concat (take (Suc j) chunks))) len) [0..<k]"
        and a: "\<forall>j<k. write_ok dev (length (writes_of (trace s5)) + j) (bytesToBase64 (chunks ! j))"
        and f: "\<not> write_ok dev (length (writes_of (trace s5)) + k) (bytesToBase64 (chunks ! k))"
        by blast
      have "emitted_progress (trace s) = events k"
        unfolding st catch_block_fields e e5 c5 events_def chunks_def
        by (simp add: length_concat_take_chunks len_def)
      moreover have "count s = min (300 * k) len"
        unfolding st catch_block_fields c c5 chunks_def
        by (simp add: length_concat_take_chunks len_def)
      moreover have "writes_of (trace s) = map bytesToBase64 (take (Suc k) chunks)"
        unfolding st catch_block_fields w w5 by simp
      moreover have "\<forall>j<k. write_ok dev j (bytesToBase64 (chunks ! j))"
        using a by (simp add: w5)
      moreover have "\<not> write_ok dev k (bytesToBase64 (chunks ! k))"
        using f by (simp add: w5)
      moreover have "streamingStatus s = ''Error: Streaming failed''" "\<not> isStreaming s"
        unfolding st by (simp_all add: catch_block_fields)
      ultimately show ?thesis using mtu k by blast
    next
      case s6: (Inr s6)
      note r = stream_chunks_Inr [OF s6]
      have w6: "writes_of (trace s6) = map bytesToBase64 chunks"
        using r by (simp add: w5)
      have c6: "count s6 = len"
        using r by (simp add: c5 chunks_def len_def length_concat_chunks)
      have e6: "emitted_progress (trace s6) = events (length chunks)"
        using r by (simp add: e5 c5 events_def chunks_def length_concat_take_chunks len_def)
      have a6: "\<forall>j<length chunks. write_ok dev j (bytesToBase64 (chunks ! j))"
        using r by (simp add: w5)
      show ?thesis
      proof (cases "complete_streaming dev s6")
        case (Inl t)
        then have st: "s = catch_block t"
          by (simp add: s try_block_def Inr s6 [unfolded len_def chunks_def])
        note cI = complete_streaming_Inl [OF Inl]
        have "\<not> write_ok dev (length chunks) (bytesToBase64 endMarker)"
          using cI by (simp add: w6)
        moreover have "writes_of (trace s) = map bytesToBase64 chunks @ [bytesToBase64 endMarker]"
          unfolding st catch_block_fields using cI by (simp add: w6)
        moreover have "emitted_progress (trace s) = events (length chunks)"
          unfolding st catch_block_fields using cI by (simp add: e6)
        moreover have "count s = len"
          unfolding st catch_block_fields using cI by (simp add: c6)
        moreover have "streamingStatus s = ''Error: Streaming failed''" "\<not> isStreaming s"
          unfolding st by (simp_all add: catch_block_fields)
        ultimately show ?thesis using mtu a6 by blast
      next
        case s8: (Inr s8)
        then have st: "s = s8"
          by (simp add: s try_block_def Inr s6 [unfolded len_def chunks_def])
        note cR = complete_streaming_Inr [OF s8]
        have "write_ok dev (length chunks) (bytesToBase64 endMarker)"
          using cR by (simp add: w6)
        moreover have "writes_of (trace s) = map bytesToBase64 chunks @ [bytesToBase64 endMarker]"
          unfolding st using cR by (simp add: w6)
        moreover have "emitted_progress (trace s) = events (length chunks) @ [Num 100]"
          unfolding st using cR by (simp add: e6)
        moreover have "count s = len"
          unfolding st using cR by (simp add: c6)
        moreover have "streamingStatus s = ''Streaming completed successfully!''" "\<not> isStreaming s"
            "streamingProgress s = Num 100"
          unfolding st using cR by simp_all
        ultimately show ?thesis using mtu a6 by blast
      qed
    qed
  qed
qed


section \<open>The claims about the transfer routine\<close>

text \<open>Claim C8. With no device handle the routine issues no device call at all (no MTU
  request, no write, no delay and no timer): it only sets the status message to
  \<open>Error: No device connected\<close> and clears the streaming flag, leaving the progress as it was.\<close>

theorem no_device_rejected:
  "trace (startStreamingData None byteData s0) =
       [SetStreamingStatus ''Error: No device connected'', SetIsStreaming False]
   \<and> writes_of (trace (startStreamingData None byteData s0)) = []
   \<and> streamingStatus (startStreamingData None byteData s0) = ''Error: No device connected''
   \<and> isStreaming (startStreamingData None byteData s0) = False
   \<and> streamingProgress (startStreamingData None byteData s0) = streamingProgress s0"
  by (simp add: startStreamingData_def setter_defs)

text \<open>The theorem at a payload of three bytes and the initial hook state.\<close>

theorem no_device_rejected_witness:
  "trace (startStreamingData None [1, 2, 3] initial_session) =
       [SetStreamingStatus ''Error: No device connected'', SetIsStreaming False]
   \<and> streamingProgress (startStreamingData None [1, 2, 3] initial_session) = Num 0"
  using no_device_rejected [of "[1, 2, 3]" initial_session] by (simp add: initial_session_def)

text \<open>Claim C2. When the MTU request succeeds, the writes of chunks \<open>0, \<dots>, k - 1\<close> are
  acknowledged and the write of chunk \<open>k\<close> throws, the call ends with the failure message and
  the streaming flag cleared, no write follows the failed one, and \<open>count\<close> (the bytes sent)
  is the sum of the lengths of chunks \<open>0, \<dots>, k - 1\<close>: the bytes of chunk \<open>k\<close> are not counted.\<close>

theorem write_failure_aborts:
  assumes "requestMTU_ok dev"
    and "k < length (make_chunks byteData)"
    and "\<forall>j<k. write_ok dev j (bytesToBase64 (make_chunks byteData ! j))"
    and "\<not> write_ok dev k (bytesToBase64 (make_chunks byteData ! k))"
  shows "streamingStatus (startStreamingData (Some dev) byteData s0) = ''Error: Streaming failed''
    \<and> isStreaming (startStreamingData (Some dev) byteData s0) = False
    \<and> count (startStreamingData (Some dev) byteData s0) =
          sum_list (map length (take k (make_chunks byteData)))
    \<and> writes_of (trace (startStreamingData (Some dev) byteData s0)) =
          map bytesToBase64 (take (Suc k) (make_chunks byteData))"
proof -
  let ?s = "startStreamingData (Some dev) byteData s0"
  let ?chunks = "make_chunks byteData"
  have sum: "sum_list (map length (take k ?chunks)) = min (300 * k) (length byteData)"
    using length_concat_take_chunks [of k byteData] by (simp add: length_concat)
  from session_outcomes [of dev byteData s0] assms(1)
  consider
    (chunk) k' where "k' < length ?chunks"
      "\<forall>j<k'. write_ok dev j (bytesToBase64 (?chunks ! j))"
      "\<not> write_ok dev k' (bytesToBase64 (?chunks ! k'))"
      "streamingStatus ?s = ''Error: Streaming failed''" "\<not> isStreaming ?s"
      "writes_of (trace ?s) = map bytesToBase64 (take (Suc k') ?chunks)"
      "count ?s = min (300 * k') (length byteData)"
  | (all) "\<forall>j<length ?chunks. write_ok dev j (bytesToBase64 (?chunks ! j))"
    by blast
  then show ?thesis
  proof cases
    case chunk
    have "k' = k"
    proof (rule ccontr)
      assume "k' \<noteq> k"
      then consider "k' < k" | "k < k'" by linarith
      then show False
      proof cases
        case 1
        with assms(3) chunk(3) show False by blast
      next
        case 2
        with chunk(2) assms(4) show False by blast
      qed
    qed
    with chunk sum show ?thesis by simp
  next
    case all
    with assms(2) assms(4) show ?thesis by blast
  qed
qed

text \<open>The theorem for a payload of 700 bytes whose second chunk (index 1) is refused: 300
  bytes have been sent.\<close>

theorem write_failure_aborts_witness:
  "streamingStatus (startStreamingData
       (Some \<lparr>device_name = ''frame'', requestMTU_ok = True, write_ok = (\<lambda>n v. n \<noteq> 1)\<rparr>)
       (replicate 700 7) initial_session) = ''Error: Streaming failed''
   \<and> count (startStreamingData
       (Some \<lparr>device_name = ''frame'', requestMTU_ok = True, write_ok = (\<lambda>n v. n \<noteq> 1)\<rparr>)
       (replicate 700 7) initial_session) = 300"
proof -
  let ?dev = "\<lparr>device_name = ''frame'', requestMTU_ok = True, write_ok = (\<lambda>n v. n \<noteq> (1::nat))\<rparr>"
  have 1: "requestMTU_ok ?dev" by simp
  have 2: "1 < length (make_chunks (replicate 700 (7::int)))" by (simp add: length_make_chunks)
  have 3: "\<forall>j<1. write_ok ?dev j (bytesToBase64 (make_chunks (replicate 700 7) ! j))" by simp
  have 4: "\<not> write_ok ?dev 1 (bytesToBase64 (make_chunks (replicate 700 7) ! 1))" by simp
  have 5: "sum_list (map length (take 1 (make_chunks (replicate 700 (7::int))))) = 300"
    using length_concat_take_chunks [of 1 "replicate 700 (7::int)"] by (simp add: length_concat)
  show ?thesis
    using write_failure_aborts [OF 1 2 3 4, of initial_session] 5 by simp
qed


lemma all_acknowledged:
  assumes "requestMTU_ok dev" and "\<forall>n v. write_ok dev n v"
  shows "streamingStatus (startStreamingData (Some dev) byteData s0) = ''Streaming completed successfully!''"
  using session_outcomes [of dev byteData s0] assms by blast

lemma successful_session:
  assumes "streamingStatus (startStreamingData device byteData s0) = ''Streaming completed successfully!''"
  obtains dev where "device = Some dev"
    "writes_of (trace (startStreamingData device byteData s0)) =
       map bytesToBase64 (make_chunks byteData) @ [bytesToBase64 endMarker]"
    "emitted_progress (trace (startStreamingData device byteData s0)) =
       (Num 0 # map (\<lambda>j. progress_of (min (300 * Suc j) (length byteData)) (length byteData))
                  [0..<length (make_chunks byteData)]) @ [Num 100]"
    "count (startStreamingData device byteData s0) = length byteData"
    "streamingProgress (startStreamingData device byteData s0) = Num 100"
proof (cases device)
  case None
  with assms show ?thesis by (simp add: startStreamingData_def setter_defs)
next
  case (Some dev)
  from session_outcomes [of dev byteData s0] assms
  have "writes_of (trace (startStreamingData (Some dev) byteData s0)) =
       map bytesToBase64 (make_chunks byteData) @ [bytesToBase64 endMarker]
    \<and> emitted_progress (trace (startStreamingData (Some dev) byteData s0)) =
       (Num 0 # map (\<lambda>j. progress_of (min (300 * Suc j) (length byteData)) (length byteData))
                  [0..<length (make_chunks byteData)]) @ [Num 100]
    \<and> count (startStreamingData (Some dev) byteData s0) = length byteData
    \<and> streamingProgress (startStreamingData (Some dev) byteData s0) = Num 100"
    unfolding Some by auto
  with Some that show ?thesis by blast
qed

text \<open>Claim C3. In a call that ends with the success message, the values written are the
  encoded chunks in order followed by exactly one further write, the encoded end marker
  \<open>0xFF 0xFF 0xFF 0xFF\<close>; \<open>count\<close> ends as the length of the payload, so the four bytes of
  the marker are not added to it; and every progress value that is computed comes from the
  bytes of the chunks sent so far, the final 100 being a constant.\<close>

theorem end_marker_once_after_chunks:
  assumes "streamingStatus (startStreamingData device byteData s0) = ''Streaming completed successfully!''"
  shows "writes_of (trace (startStreamingData device byteData s0)) =
       map bytesToBase64 (make_chunks byteData) @ [bytesToBase64 endMarker]
    \<and> endMarker = [255, 255, 255, 255]
    \<and> count (startStreamingData device byteData s0) = length byteData
    \<and> emitted_progress (trace (startStreamingData device byteData s0)) =
       (Num 0 # map (\<lambda>j. progress_of (min (300 * Suc j) (length byteData)) (length byteData))
                  [0..<length (make_chunks byteData)]) @ [Num 100]"
  using successful_session [OF assms] by (metis endMarker_def)

text \<open>The theorem for a payload of 700 bytes and a device that acknowledges everything.\<close>

theorem end_marker_once_after_chunks_witness:
  "writes_of (trace (startStreamingData
       (Some \<lparr>device_name = ''frame'', requestMTU_ok = True, write_ok = (\<lambda>n v. True)\<rparr>)
       (replicate 700 7) initial_session)) =
     map bytesToBase64 (make_chunks (replicate 700 7)) @ [bytesToBase64 endMarker]
   \<and> count (startStreamingData
       (Some \<lparr>device_name = ''frame'', requestMTU_ok = True, write_ok = (\<lambda>n v. True)\<rparr>)
       (replicate 700 7) initial_session) = 700"
proof -
  let ?dev = "\<lparr>device_name = ''frame'', requestMTU_ok = True, write_ok = (\<lambda>n v. True)\<rparr>"
  have ok: "streamingStatus (startStreamingData (Some ?dev) (replicate 700 7) initial_session) =
      ''Streaming completed successfully!''"
    by (rule all_acknowledged) simp_all
  show ?thesis using end_marker_once_after_chunks [OF ok] by simp
qed


lemma js_le_Num_0_100: "js_le (Num 0) (Num 100)"
  by simp

lemma events_sorted:
  assumes "0 < len \<or> k = 0"
  shows "sorted_wrt js_le
     ((Num 0 # map (\<lambda>j. progress_of (min (300 * Suc j) len) len) [0..<k]) @ [Num 100])"
proof (cases "k = 0")
  case True
  then show ?thesis by simp
next
  case False
  with assms have len: "0 < len" by simp
  let ?g = "\<lambda>j. progress_of (min (300 * Suc j) len) len"
  have rng: "js_le (Num 0) (?g j) \<and> js_le (?g j) (Num 100)" for j
    using progress_of_range [OF len, of "min (300 * Suc j) len"] by simp
  have mono: "js_le (?g i) (?g j)" if "i < j" for i j
    using that by (intro progress_of_mono [OF len]) simp
  have "sorted_wrt (\<lambda>i j. js_le (?g i) (?g j)) [0..<k]"
    using sorted_wrt_upt [of 0 k] by (rule sorted_wrt_mono_rel [rotated]) (rule mono)
  then have "sorted_wrt js_le (map ?g [0..<k])"
    by (simp add: sorted_wrt_map)
  then show ?thesis
    using rng by (auto simp add: sorted_wrt_append)
qed

lemma sorted_wrt_butlast_part:
  "sorted_wrt P (xs @ [y]) \<Longrightarrow> sorted_wrt P xs"
  by (simp add: sorted_wrt_append)

text \<open>Claim C4. In every call the progress values emitted, in order (the initial 0, one
  value after each acknowledged chunk, and 100 after the end marker), never decrease; and
  when the call ends with the success message, that is after the end marker step, the last
  value emitted and the progress shown are exactly 100.\<close>

theorem progress_monotone_to_100:
  "sorted_wrt js_le (emitted_progress (trace (startStreamingData device byteData s0)))
   \<and> (streamingStatus (startStreamingData device byteData s0) = ''Streaming completed successfully!''
        \<longrightarrow> last (emitted_progress (trace (startStreamingData device byteData s0))) = Num 100
          \<and> streamingProgress (startStreamingData device byteData s0) = Num 100)"
proof -
  let ?s = "startStreamingData device byteData s0"
  let ?len = "length byteData"
  let ?events = "\<lambda>k. Num 0 # map (\<lambda>j. progress_of (min (300 * Suc j) ?len) ?len) [0..<k]"
  have last: "streamingStatus ?s = ''Streaming completed successfully!''
      \<longrightarrow> last (emitted_progress (trace ?s)) = Num 100 \<and> streamingProgress ?s = Num 100"
  proof
    assume "streamingStatus ?s = ''Streaming completed successfully!''"
    from successful_session [OF this] show
      "last (emitted_progress (trace ?s)) = Num 100 \<and> streamingProgress ?s = Num 100"
      by (metis last_snoc)
  qed
  have full: "sorted_wrt js_le (?events k @ [Num 100])" if "k \<le> length (make_chunks byteData)" for k
  proof (rule events_sorted)
    show "0 < ?len \<or> k = 0"
      using that by (cases "?len = 0") (simp_all add: length_make_chunks)
  qed
  have part: "sorted_wrt js_le (?events k)" if "k \<le> length (make_chunks byteData)" for k
    using full [OF that] by (rule sorted_wrt_butlast_part)
  have "sorted_wrt js_le (emitted_progress (trace ?s))"
  proof (cases device)
    case None
    then show ?thesis by (simp add: startStreamingData_def setter_defs)
  next
    case (Some dev)
    from session_outcomes [of dev byteData s0]
    consider k where "k \<le> length (make_chunks byteData)" "emitted_progress (trace ?s) = ?events k"
      | "emitted_progress (trace ?s) = ?events (length (make_chunks byteData)) @ [Num 100]"
      unfolding Some by (metis le_refl less_imp_le zero_le)
    then show ?thesis
    proof cases
      case 1
      then show ?thesis using part by simp
    next
      case 2
      then show ?thesis using full [of "length (make_chunks byteData)"] by simp
    qed
  qed
  with last show ?thesis by blast
qed

text \<open>The theorem for a payload of 700 bytes and a device that acknowledges everything.\<close>

theorem progress_monotone_to_100_witness:
  "sorted_wrt js_le (emitted_progress (trace (startStreamingData
       (Some \<lparr>device_name = ''frame'', requestMTU_ok = True, write_ok = (\<lambda>n v. True)\<rparr>)
       (replicate 700 7) initial_session)))
   \<and> last (emitted_progress (trace (startStreamingData
       (Some \<lparr>device_name = ''frame'', requestMTU_ok = True, write_ok = (\<lambda>n v. True)\<rparr>)
       (replicate 700 7) initial_session))) = Num 100
   \<and> streamingProgress (startStreamingData
       (Some \<lparr>device_name = ''frame'', requestMTU_ok = True, write_ok = (\<lambda>n v. True)\<rparr>)
       (replicate 700 7) initial_session) = Num 100"
proof -
  let ?dev = "\<lparr>device_name = ''frame'', requestMTU_ok = True, write_ok = (\<lambda>n v. True)\<rparr>"
  have ok: "streamingStatus (startStreamingData (Some ?dev) (replicate 700 7) initial_session) =
      ''Streaming completed successfully!''"
    by (rule all_acknowledged) simp_all
  show ?thesis
    using progress_monotone_to_100 [of "Some ?dev" "replicate 700 7" initial_session] ok by simp
qed


lemma make_chunks_Nil: "make_chunks [] = []"
  by (simp add: make_chunks_closed)

lemma progress_of_0_0: "progress_of 0 0 = NaN"
  by (simp add: progress_of_def js_divide_def)

text \<open>Claim C7, as the code has it. A call with an empty payload is not guarded. The
  expression for the percentage would be \<^verbatim>\<open>NaN\<close> for a payload of length zero, but it
  stands inside the streaming loop, and an empty payload has no chunk: no chunk is written,
  no percentage is computed and no \<^verbatim>\<open>NaN\<close> is emitted. When the MTU request and the write
  of the end marker succeed, the end marker is the only write and the call ends with
  progress 100 and the success message.\<close>

theorem empty_payload_unguarded:
  "progress_of 0 0 = NaN
   \<and> make_chunks ([] :: int list) = []
   \<and> NaN \<notin> set (emitted_progress (trace (startStreamingData (Some dev) [] s0)))
   \<and> streamingProgress (startStreamingData (Some dev) [] s0) \<noteq> NaN
   \<and> (requestMTU_ok dev \<and> write_ok dev 0 (bytesToBase64 endMarker) \<longrightarrow>
        writes_of (trace (startStreamingData (Some dev) [] s0)) = [bytesToBase64 endMarker]
      \<and> emitted_progress (trace (startStreamingData (Some dev) [] s0)) = [Num 0, Num 100]
      \<and> streamingProgress (startStreamingData (Some dev) [] s0) = Num 100
      \<and> streamingStatus (startStreamingData (Some dev) [] s0) = ''Streaming completed successfully!'')"
proof -
  let ?s = "startStreamingData (Some dev) [] s0"
  have e: "emitted_progress (trace ?s) = [Num 0] \<or> emitted_progress (trace ?s) = [Num 0, Num 100]"
    using session_outcomes [of dev "[]" s0] by (auto simp add: make_chunks_Nil)
  have p: "streamingProgress ?s = Num 0 \<or> streamingProgress ?s = Num 100"
    by (simp add: startStreamingData_def try_block_def begin_streaming_def complete_streaming_def
        requestMTU_def writeCharacteristicWithResponseForService_def catch_block_def
        make_chunks_Nil Let_def setter_defs)
  have ok: "requestMTU_ok dev \<and> write_ok dev 0 (bytesToBase64 endMarker) \<longrightarrow>
        writes_of (trace ?s) = [bytesToBase64 endMarker]
      \<and> emitted_progress (trace ?s) = [Num 0, Num 100]
      \<and> streamingProgress ?s = Num 100
      \<and> streamingStatus ?s = ''Streaming completed successfully!''"
    using session_outcomes [of dev "[]" s0] by (auto simp add: make_chunks_Nil)
  from e have "NaN \<notin> set (emitted_progress (trace ?s))" by auto
  moreover from p have "streamingProgress ?s \<noteq> NaN" by auto
  ultimately show ?thesis using ok progress_of_0_0 make_chunks_Nil by blast
qed

text \<open>The theorem for a device that acknowledges everything.\<close>

theorem empty_payload_unguarded_witness:
  "writes_of (trace (startStreamingData
       (Some \<lparr>device_name = ''frame'', requestMTU_ok = True, write_ok = (\<lambda>n v. True)\<rparr>)
       [] initial_session)) = [bytesToBase64 endMarker]
   \<and> emitted_progress (trace (startStreamingData
       (Some \<lparr>device_name = ''frame'', requestMTU_ok = True, write_ok = (\<lambda>n v. True)\<rparr>)
       [] initial_session)) = [Num 0, Num 100]"
  using empty_payload_unguarded
    [of "\<lparr>device_name = ''frame'', requestMTU_ok = True, write_ok = (\<lambda>n v. True)\<rparr>" initial_session]
  by simp

text \<open>Claim C7 as stated fails: with an empty payload and a connected device that
  acknowledges everything, neither an emitted progress value nor the final progress is
  \<^verbatim>\<open>NaN\<close>.\<close>

theorem empty_payload_nan_counterexample:
  "\<not> (NaN \<in> set (emitted_progress (trace (startStreamingData
         (Some \<lparr>device_name = ''frame'', requestMTU_ok = True, write_ok = (\<lambda>n v. True)\<rparr>)
         [] initial_session)))
      \<or> streamingProgress (startStreamingData
         (Some \<lparr>device_name = ''frame'', requestMTU_ok = True, write_ok = (\<lambda>n v. True)\<rparr>)
         [] initial_session) = NaN)"
  by (simp add: startStreamingData_def try_block_def begin_streaming_def complete_streaming_def
      requestMTU_def writeCharacteristicWithResponseForService_def
      make_chunks_Nil Let_def setter_defs initial_session_def)

lemma nth_events:
  "j < k \<Longrightarrow> ((Num 0 # map (\<lambda>j. progress_of (min (300 * Suc j) len) len) [0..<k]) @ [Num 100]) ! Suc j
     = progress_of (min (300 * Suc j) len) len"
  by (simp add: nth_append)

text \<open>Claim C5 at a payload of 12000 bytes, every write acknowledged. After the 23rd chunk
  6900 bytes have been sent. The exact percentage is 57.5, which rounds to 58; the routine
  divides first: the double nearest to \<open>6900 / 12000\<close> lies below 0.575, its product with 100
  is rounded to the double just below 57.5, and \<^verbatim>\<open>Math.round\<close> gives 57. (Entry 0 of the
  emitted values is the initial 0, entry \<open>j\<close> the value after the \<open>j\<close>-th chunk.)\<close>

theorem progress_rounding_at_12000:
  "emitted_progress (trace (startStreamingData
       (Some \<lparr>device_name = ''frame'', requestMTU_ok = True, write_ok = (\<lambda>n v. True)\<rparr>)
       (replicate 12000 0) initial_session)) ! 23 = Num 57
   \<and> sum_list (map length (take 23 (make_chunks (replicate 12000 (0::int))))) = 6900
   \<and> \<lfloor>(100 * 6900 / 12000 :: rat) + 1 / 2\<rfloor> = 58"
proof -
  let ?dev = "\<lparr>device_name = ''frame'', requestMTU_ok = True, write_ok = (\<lambda>n v. True)\<rparr>"
  let ?s = "startStreamingData (Some ?dev) (replicate 12000 0) initial_session"
  have ok: "streamingStatus ?s = ''Streaming completed successfully!''"
    by (rule all_acknowledged) simp_all
  have n: "length (make_chunks (replicate 12000 (0::int))) = 40"
    by (simp add: length_make_chunks)
  from successful_session [OF ok]
  have "emitted_progress (trace ?s) =
      (Num 0 # map (\<lambda>j. progress_of (min (300 * Suc j) 12000) 12000) [0..<40]) @ [Num 100]"
    by (simp add: n)
  moreover have "((Num 0 # map (\<lambda>j. progress_of (min (300 * Suc j) 12000) 12000) [0..<40]) @ [Num 100])
      ! Suc 22 = progress_of (min (300 * Suc 22) 12000) 12000"
    by (rule nth_events) simp
  ultimately have "emitted_progress (trace ?s) ! Suc 22 = progress_of (min (300 * Suc 22) 12000) 12000"
    by (simp only:)
  then have 1: "emitted_progress (trace ?s) ! 23 = Num 57"
    by (simp add: progress_6900_12000)
  have 2: "sum_list (map length (take 23 (make_chunks (replicate 12000 (0::int))))) = 6900"
    using length_concat_take_chunks [of 23 "replicate 12000 (0::int)"] by (simp add: length_concat)
  have 3: "\<lfloor>(100 * 6900 / 12000 :: rat) + 1 / 2\<rfloor> = 58"
    by (simp add: floor_rat_divide_numeral)
  from 1 2 3 show ?thesis by blast
qed


section \<open>Properties of the image storage\<close>

subsection \<open>Tokens of \<^verbatim>\<open>parseByteString\<close>\<close>

lemma parse_token_range: "parse_token t = Inr v \<Longrightarrow> 0 \<le> v \<and> v \<le> 255"
  by (auto simp add: parse_token_def Let_def split: option.splits if_splits)

lemma parse_parts_range:
  "parse_parts parts acc = Inr bytes \<Longrightarrow> list_all (\<lambda>b. 0 \<le> b \<and> b \<le> 255) acc
     \<Longrightarrow> list_all (\<lambda>b. 0 \<le> b \<and> b \<le> 255) bytes"
proof (induction parts arbitrary: acc)
  case Nil
  then show ?case by simp
next
  case (Cons part parts)
  show ?case
  proof (cases "trim part = []")
    case True
    with Cons show ?thesis by simp
  next
    case False
    with Cons.prems(1) obtain v where v: "parse_token (trim part) = Inr v"
      and run: "parse_parts parts (acc @ [v]) = Inr bytes"
      by (auto simp add: Let_def split: sum.splits)
    from parse_token_range [OF v] Cons.prems(2)
    have "list_all (\<lambda>b. 0 \<le> b \<and> b \<le> 255) (acc @ [v])" by simp
    with Cons.IH [OF run] show ?thesis .
  qed
qed

lemma parseByteString_range:
  "parseByteString s = Inr bytes \<Longrightarrow> list_all (\<lambda>b. 0 \<le> b \<and> b \<le> 255) bytes"
  using parse_parts_range [of _ "[]" bytes]
  by (auto simp add: parseByteString_def Let_def split: if_splits)

lemma hex_digit_facts:
  assumes "is_hex_digit c"
  shows "\<not> is_space c" "c \<noteq> CHR ''+''" "c \<noteq> CHR ''-''" "c \<noteq> CHR ''x''" "c \<noteq> CHR ''X''"
    "is_digit 16 c" "the (digit_value c) < 16"
  using assms
  by (auto simp add: is_hex_digit_def is_space_def is_digit_def digit_value_def Let_def)

lemma of_char_lower_char:
  "(of_char (lower_char c) :: nat) =
     (let n = of_char c
      in if (65 \<le> n \<and> n \<le> 90) \<or> (192 \<le> n \<and> n \<le> 222 \<and> n \<noteq> 215) then n + 32 else n)"
proof -
  have "(of_char c :: nat) < 256" by (rule of_char_less_256)
  then show ?thesis by (auto simp add: lower_char_def Let_def of_char_of)
qed

lemma hex_digit_lower_not_x:
  assumes "is_hex_digit c"
  shows "lower_char c \<noteq> CHR ''x''"
proof
  assume "lower_char c = CHR ''x''"
  then have "(of_char (lower_char c) :: nat) = 120" by simp
  with assms show False
    by (auto simp add: of_char_lower_char is_hex_digit_def Let_def split: if_splits)
qed

lemma digits_value_snoc:
  "digits_value radix (z @ [c]) = digits_value radix z * radix + the (digit_value c)"
  by (simp add: digits_value_def)

text \<open>A token of one or two hexadecimal digits is read in radix 16.\<close>

lemma plain_hex_token:
  assumes "all_hex_digits t" "length t \<le> 2"
  shows "parse_token t = Inr (int (digits_value 16 t))"
proof -
  from assms(1) have ne: "t \<noteq> []" and hex: "list_all is_hex_digit t"
    by (simp_all add: all_hex_digits_def)
  have hexc: "is_hex_digit c" if "c \<in> set t" for c
    using hex that by (simp add: list_all_iff)
  have no0x: "\<not> startsWith (toLowerCase t) ''0x''"
  proof
    assume "startsWith (toLowerCase t) ''0x''"
    then obtain c d r where t: "t = c # d # r" and "lower_char d = CHR ''x''"
      by (cases t; cases "tl t") (auto simp add: startsWith_def toLowerCase_def)
    moreover have "is_hex_digit d" using t by (intro hexc) simp
    ultimately show False using hex_digit_lower_not_x by blast
  qed
  have nox: "\<not> startsWith t ''0x''" "\<not> startsWith t ''0X''"
  proof -
    show "\<not> startsWith t ''0x''"
    proof
      assume "startsWith t ''0x''"
      then obtain c r where t: "t = c # CHR ''x'' # r"
        by (cases t; cases "tl t") (auto simp add: startsWith_def)
      then have "is_hex_digit CHR ''x''" by (intro hexc) simp
      then show False using hex_digit_facts(4) by blast
    qed
    show "\<not> startsWith t ''0X''"
    proof
      assume "startsWith t ''0X''"
      then obtain c r where t: "t = c # CHR ''X'' # r"
        by (cases t; cases "tl t") (auto simp add: startsWith_def)
      then have "is_hex_digit CHR ''X''" by (intro hexc) simp
      then show False using hex_digit_facts(5) by blast
    qed
  qed
  obtain c r where t: "t = c # r" using ne by (cases t) auto
  have c: "is_hex_digit c" using t by (intro hexc) simp
  have dw: "dropWhile is_space t = t"
    using hex_digit_facts(1) [OF c] by (simp add: t)
  have tw: "takeWhile (is_digit 16) t = t"
    using hexc hex_digit_facts(6) by (simp add: takeWhile_eq_all_conv)
  have sign: "hd t \<noteq> CHR ''+''" "hd t \<noteq> CHR ''-''"
    using hex_digit_facts(2,3) [OF c] by (simp_all add: t)
  have pi: "parseInt t 16 = Some (int (digits_value 16 t))"
    unfolding parseInt_def Let_def dw using ne nox sign by (simp add: tw)
  have bound: "digits_value 16 t \<le> 255"
  proof (cases r)
    case Nil
    then show ?thesis using hex_digit_facts(7) [OF c] by (simp add: t digits_value_def)
  next
    case (Cons d r')
    with assms(2) t have r': "r' = []" by simp
    have d: "is_hex_digit d" using t Cons by (intro hexc) simp
    have "the (digit_value c) < 16" "the (digit_value d) < 16"
      using c d by (simp_all add: hex_digit_facts(7))
    then show ?thesis by (simp add: t Cons r' digits_value_def)
  qed
  show ?thesis
    using no0x assms pi bound by (simp add: parse_token_def Let_def)
qed

lemma parseByteString_10: "parseByteString ''10'' = Inr [16]"
  by code_simp


text \<open>A token for which \<^verbatim>\<open>parseInt\<close> gives \<^verbatim>\<open>NaN\<close> or a number outside 0 to 255 throws.\<close>

lemma parse_token_rejects:
  assumes "v = (if startsWith (toLowerCase t) ''0x'' then parseInt t 16
                else if all_hex_digits t \<and> length t \<le> 2 then parseInt t 16
                else parseInt t 10)"
    and "v = None \<or> (\<exists>n. v = Some n \<and> (n < 0 \<or> 255 < n))"
  shows "isl (parse_token t)"
proof -
  let ?message = "''Invalid byte format at \"'' @ t
      @ ''\". Expected formats: 0xAB, AB, or decimal 0-255''"
  have "parse_token t =
      (case v of None \<Rightarrow> Inl ?message
       | Some n \<Rightarrow> if n < 0 \<or> 255 < n then Inl ?message else Inr n)"
    unfolding parse_token_def Let_def assms(1) ..
  then show ?thesis using assms(2) by auto
qed

lemma parseByteString_rejects:
  "isl (parseByteString ''256'')" "isl (parseByteString ''-1'')" "isl (parseByteString ''zz'')"
  "isl (parseByteString ''0x100'')" "isl (parseByteString ''1,x,2'')"
  by code_simp+

text \<open>Claim C9 at three malformed tokens. \<^verbatim>\<open>parseInt\<close> reads the longest run of digits and
  ignores what follows, and the routine only tests the result for \<^verbatim>\<open>NaN\<close> and for the
  range, so \<open>7z\<close>, \<open>12abc\<close> and \<open>0x1G\<close> do not throw: they are accepted as 7, 12 and 1. (The
  other parts of the claim hold: \<open>plain_hex_token\<close>, \<open>parseByteString_10\<close>,
  \<open>parseByteString_range\<close> and \<open>parse_token_rejects\<close> above.)\<close>

theorem parseByteString_accepts_malformed:
  "parseByteString ''7z'' = Inr [7]
   \<and> parseByteString ''12abc'' = Inr [12]
   \<and> parseByteString ''0x1G'' = Inr [1]"
  by code_simp

subsection \<open>\<^verbatim>\<open>addImage\<close>\<close>





end
